theory Spec2Isabelle
  imports Complex_Main "HOL-Library.Multiset"
begin

section \<open>Dates, times and their difference\<close>

text \<open>
  The errors the pipeline can raise.  \<open>ValueError\<close> is what
  \<^verbatim>\<open>datetime.fromisoformat\<close> raises on text it cannot read, \<open>TypeError\<close> is what
  the subtraction of a naive and a timezone-aware datetime raises, \<open>KeyError\<close> is a
  dictionary lookup of an absent key.
\<close>

datatype py_error = KeyError | ValueError | TypeError

text \<open>
  A \<^verbatim>\<open>datetime\<close> value: its calendar fields and, when it is timezone-aware, its
  offset from UTC in microseconds (\<open>None\<close> for a naive value).
\<close>

record datetime =
  year :: int
  month :: int
  day :: int
  hour :: int
  minute :: int
  second :: int
  microsecond :: int
  utcoffset :: "int option"

text \<open>The proleptic Gregorian day number of a date, as \<^verbatim>\<open>toordinal\<close> computes it.\<close>

definition is_leap :: "int \<Rightarrow> bool" where
  "is_leap y = (y mod 4 = 0 \<and> (y mod 100 \<noteq> 0 \<or> y mod 400 = 0))"

definition days_before_year :: "int \<Rightarrow> int" where
  "days_before_year y = (y - 1) * 365 + (y - 1) div 4 - (y - 1) div 100 + (y - 1) div 400"

definition DAYS_BEFORE_MONTH :: "int list" where
  "DAYS_BEFORE_MONTH = [0, 0, 31, 59, 90, 120, 151, 181, 212, 243, 273, 304, 334]"

definition days_before_month :: "int \<Rightarrow> int \<Rightarrow> int" where
  "days_before_month y m =
     (if 1 \<le> m \<and> m \<le> 12
      then DAYS_BEFORE_MONTH ! nat m + (if 2 < m \<and> is_leap y then 1 else 0)
      else 0)"

definition ymd2ord :: "int \<Rightarrow> int \<Rightarrow> int \<Rightarrow> int" where
  "ymd2ord y m d = days_before_year y + days_before_month y m + d"

definition toordinal :: "datetime \<Rightarrow> int" where
  "toordinal dt = ymd2ord (year dt) (month dt) (day dt)"

text \<open>
  A \<^verbatim>\<open>timedelta\<close> is kept as its exact length in microseconds.  Python normalises
  it to days, seconds and microseconds with \<open>0 \<le> seconds < 86400\<close> and
  \<open>0 \<le> microseconds < 1000000\<close>, so its attribute \<^verbatim>\<open>.days\<close> is the floor of the
  length divided by one day.
\<close>

definition US_PER_DAY :: int where
  "US_PER_DAY = 86400000000"

definition timedelta :: "int \<Rightarrow> int \<Rightarrow> int \<Rightarrow> int" where
  "timedelta ds secs us = (ds * 86400 + secs) * 1000000 + us"

definition days :: "int \<Rightarrow> int" where
  "days td = td div US_PER_DAY"

text \<open>
  \<^verbatim>\<open>a - b\<close> on two datetimes: the difference of the calendar fields, corrected by
  the offsets when both values are aware; mixing a naive and an aware value raises.
\<close>

definition dt_sub :: "datetime \<Rightarrow> datetime \<Rightarrow> py_error + int" where
  "dt_sub a b =
     (let base = timedelta (toordinal a - toordinal b)
                   ((second a + minute a * 60 + hour a * 3600)
                    - (second b + minute b * 60 + hour b * 3600))
                   (microsecond a - microsecond b)
      in case (utcoffset a, utcoffset b) of
           (None, None) \<Rightarrow> Inr base
         | (Some myoff, Some otoff) \<Rightarrow> Inr (base + otoff - myoff)
         | _ \<Rightarrow> Inl TypeError)"

section \<open>Insertion-ordered dictionaries\<close>

text \<open>
  A Python \<^verbatim>\<open>dict\<close> iterates in the order in which its keys were first inserted, and
  the diagram depends on that order, so a dictionary is an association list with
  distinct keys, oldest key first.
\<close>

type_synonym ('k, 'v) odict = "('k \<times> 'v) list"

text \<open>\<^verbatim>\<open>d[k] = v\<close>: an existing key keeps its place, a new key goes to the end.\<close>

fun dict_set :: "'k \<Rightarrow> 'v \<Rightarrow> ('k, 'v) odict \<Rightarrow> ('k, 'v) odict" where
  "dict_set k v [] = [(k, v)]"
| "dict_set k v ((k', v') # rest) =
     (if k' = k then (k', v) # rest else (k', v') # dict_set k v rest)"

text \<open>
  \<^verbatim>\<open>d[k].append(x)\<close> on a \<^verbatim>\<open>defaultdict(list)\<close>: an absent key is first inserted with
  an empty list.
\<close>

fun dict_append :: "'k \<Rightarrow> 'a \<Rightarrow> ('k, 'a list) odict \<Rightarrow> ('k, 'a list) odict" where
  "dict_append k x [] = [(k, [x])]"
| "dict_append k x ((k', xs) # rest) =
     (if k' = k then (k', xs @ [x]) # rest else (k', xs) # dict_append k x rest)"

section \<open>The transition extractor\<close>

text \<open>
  One row as the loop body of \<^verbatim>\<open>process_conditions_data\<close> reads it (lines 25 to 27).
  The file, its header and the text of a timestamp are the business of the \<^verbatim>\<open>csv\<close>
  and \<^verbatim>\<open>datetime\<close> libraries: \<open>START\<close> is what \<^verbatim>\<open>datetime.fromisoformat(row['START'])\<close>
  returns, \<open>None\<close> when it raises \<open>ValueError\<close>; the three columns are taken to exist.
\<close>

record csv_row =
  START :: "datetime option"
  PATIENT :: string
  DESCRIPTION :: string

type_synonym journey_key = "string \<times> string"

text \<open>
  The loop state: the dictionary built so far and the previous row.  The source keeps
  the previous row in three variables that are \<^verbatim>\<open>None\<close> together before the first
  row and are assigned together at the end of every iteration, so they are one optional
  triple (start date, description, patient).
\<close>

record extractor_state =
  journey_time_diffs :: "(journey_key, int list) odict"
  previous :: "(datetime \<times> string \<times> string) option"

definition initial_state :: extractor_state where
  "initial_state = \<lparr>journey_time_diffs = [], previous = None\<rparr>"

text \<open>The loop body, lines 25 to 36.\<close>

definition loop_body :: "extractor_state \<Rightarrow> csv_row \<Rightarrow> py_error + extractor_state" where
  "loop_body s row =
     (case START row of
        None \<Rightarrow> Inl ValueError
      | Some start_date \<Rightarrow>
          (let patient = PATIENT row;
               description = DESCRIPTION row;
               nxt = Some (start_date, description, patient)
           in case previous s of
                None \<Rightarrow> Inr (s\<lparr>previous := nxt\<rparr>)
              | Some (previous_start_date, previous_description, previous_patient) \<Rightarrow>
                  if previous_patient = patient
                  then (case dt_sub start_date previous_start_date of
                          Inl e \<Rightarrow> Inl e
                        | Inr td \<Rightarrow>
                            Inr \<lparr>journey_time_diffs =
                                   dict_append (previous_description, description) (days td)
                                     (journey_time_diffs s),
                                 previous = nxt\<rparr>)
                  else Inr (s\<lparr>previous := nxt\<rparr>)))"

text \<open>The \<^verbatim>\<open>for\<close> loop: the first error aborts the run.\<close>

fun run_rows :: "extractor_state \<Rightarrow> csv_row list \<Rightarrow> py_error + extractor_state" where
  "run_rows s [] = Inr s"
| "run_rows s (row # rows) =
     (case loop_body s row of Inl e \<Rightarrow> Inl e | Inr s' \<Rightarrow> run_rows s' rows)"

definition process_conditions_data ::
    "csv_row list \<Rightarrow> py_error + (journey_key, int list) odict" where
  "process_conditions_data rows =
     (case run_rows initial_state rows of
        Inl e \<Rightarrow> Inl e
      | Inr s \<Rightarrow> Inr (journey_time_diffs s))"

section \<open>The transition aggregator\<close>

text \<open>
  The value stored under each key, the dictionary \<^verbatim>\<open>{'average': ..., 'total': ...}\<close>.
  Python's \<^verbatim>\<open>/\<close> on two integers returns the binary64 number nearest to the exact
  quotient; the model keeps the exact quotient.
\<close>

record stats =
  average_time :: real
  total_time :: int

definition stats_of :: "int list \<Rightarrow> stats" where
  "stats_of time_diffs =
     (let total = sum_list time_diffs
      in \<lparr>average_time = (if time_diffs \<noteq> [] then of_int total / of_nat (length time_diffs) else 0),
          total_time = total\<rparr>)"

definition calculate_total_and_average_time ::
    "(journey_key, int list) odict \<Rightarrow> (journey_key, stats) odict" where
  "calculate_total_and_average_time jtd =
     fold (\<lambda>(journey_key, time_diffs) acc. dict_set journey_key (stats_of time_diffs) acc)
       jtd []"

section \<open>The diagram model builder\<close>

definition color_palette :: "string list" where
  "color_palette =
     [''#0077BB'', ''#33BBEE'', ''#009988'', ''#EE7733'', ''#CC3311'', ''#EE3377'', ''#BBBBBB'']"

text \<open>
  The lists that \<^verbatim>\<open>create_sankey_diagram\<close> fills and hands to the plotting library,
  and the dictionary from a label to its index.
\<close>

record sankey =
  labels :: "string list"
  source :: "nat list"
  target :: "nat list"
  link_value :: "int list"
  colors :: "string list"
  label_map :: "string \<rightharpoonup> nat"

definition empty_sankey :: sankey where
  "empty_sankey =
     \<lparr>labels = [], source = [], target = [], link_value = [], colors = [],
      label_map = Map.empty\<rparr>"

text \<open>Lines 86 to 88, for one condition.\<close>

definition register_label :: "string \<Rightarrow> sankey \<Rightarrow> sankey" where
  "register_label cond g =
     (if cond \<notin> dom (label_map g)
      then g\<lparr>label_map := (label_map g)(cond \<mapsto> length (labels g)),
             labels := labels g @ [cond]\<rparr>
      else g)"

definition getitem :: "('k \<rightharpoonup> 'v) \<Rightarrow> 'k \<Rightarrow> py_error + 'v" where
  "getitem m k = (case m k of None \<Rightarrow> Inl KeyError | Some v \<Rightarrow> Inr v)"

text \<open>Lines 85 to 93, for the \<open>i\<close>-th item of the dictionary.\<close>

definition add_link :: "nat \<Rightarrow> journey_key \<times> stats \<Rightarrow> sankey \<Rightarrow> py_error + sankey" where
  "add_link i item g =
     (case item of ((from_cond, to_cond), data) \<Rightarrow>
        (let g' = fold register_label [from_cond, to_cond] g
         in case getitem (label_map g') from_cond of
              Inl e \<Rightarrow> Inl e
            | Inr src \<Rightarrow>
                (case getitem (label_map g') to_cond of
                   Inl e \<Rightarrow> Inl e
                 | Inr tgt \<Rightarrow>
                     Inr (g'\<lparr>source := source g' @ [src],
                             target := target g' @ [tgt],
                             link_value := link_value g' @ [total_time data],
                             colors := colors g' @
                               [color_palette ! (i mod length color_palette)]\<rparr>))))"

text \<open>The loop over \<^verbatim>\<open>enumerate(journey_data.items())\<close>, from index \<open>i\<close> on.\<close>

fun sankey_loop ::
    "nat \<Rightarrow> (journey_key, stats) odict \<Rightarrow> sankey \<Rightarrow> py_error + sankey" where
  "sankey_loop i [] g = Inr g"
| "sankey_loop i (item # items) g =
     (case add_link i item g of Inl e \<Rightarrow> Inl e | Inr g' \<Rightarrow> sankey_loop (Suc i) items g')"

text \<open>
  The diagram model of \<^verbatim>\<open>create_sankey_diagram\<close>: what it passes to the renderer.
  Drawing the figure and writing the file are the plotting library's.
\<close>

definition create_sankey_diagram :: "(journey_key, stats) odict \<Rightarrow> py_error + sankey" where
  "create_sankey_diagram journey_data = sankey_loop 0 journey_data empty_sankey"

text \<open>The links as the renderer pairs them up: source, target and value by position.\<close>

definition links :: "sankey \<Rightarrow> (nat \<times> nat \<times> int) list" where
  "links g = zip (source g) (zip (target g) (link_value g))"

section \<open>The pipeline\<close>

record pipeline_result =
  transitions :: "(journey_key, int list) odict"
  times :: "(journey_key, stats) odict"
  diagram :: sankey

definition main_pipeline :: "csv_row list \<Rightarrow> py_error + pipeline_result" where
  "main_pipeline rows =
     (case process_conditions_data rows of
        Inl e \<Rightarrow> Inl e
      | Inr jtd \<Rightarrow>
          (let ts = calculate_total_and_average_time jtd
           in case create_sankey_diagram ts of
                Inl e \<Rightarrow> Inl e
              | Inr g \<Rightarrow> Inr \<lparr>transitions = jtd, times = ts, diagram = g\<rparr>))"

section \<open>Notions of the specification\<close>

text \<open>
  The whole-day truncation of a time difference, rounding toward zero.
\<close>

definition trunc_days :: "int \<Rightarrow> int" where
  "trunc_days td = (if 0 \<le> td then td div US_PER_DAY else - ((- td) div US_PER_DAY))"

text \<open>
  Each element once, in the order of first occurrence: the head stays in front and is
  removed from what the rest contributes.
\<close>

primrec first_seen :: "'a list \<Rightarrow> 'a list" where
  "first_seen [] = []"
| "first_seen (x # xs) = x # filter (\<lambda>y. y \<noteq> x) (first_seen xs)"

text \<open>The endpoints of the keys in iteration order, the origin of a key before its destination.\<close>

definition endpoints :: "(journey_key, 'v) odict \<Rightarrow> string list" where
  "endpoints journey_data = concat (map (\<lambda>((from_cond, to_cond), data). [from_cond, to_cond]) journey_data)"

text \<open>The position of the first occurrence of an element of a list.\<close>

primrec index_of :: "'a \<Rightarrow> 'a list \<Rightarrow> nat" where
  "index_of x [] = 0"
| "index_of x (y # ys) = (if y = x then 0 else Suc (index_of x ys))"

text \<open>
  The list a \<^verbatim>\<open>defaultdict(list)\<close> holds under a key, empty for a key it does not hold.
\<close>

definition observations :: "('k, 'a list) odict \<Rightarrow> 'k \<Rightarrow> 'a list" where
  "observations m k = (case map_of m k of None \<Rightarrow> [] | Some xs \<Rightarrow> xs)"

text \<open>
  What the specification says the extractor produces: one observation for every two
  directly adjacent rows of the same patient, under the pair of their descriptions, in
  stream order.  \<open>elapsed_days\<close> is the \<^verbatim>\<open>.days\<close> of the difference of the two
  start dates (0 where a start date is unreadable or the difference raises, which no
  completed run meets).
\<close>

definition adjacent_pairs :: "'a list \<Rightarrow> ('a \<times> 'a) list" where
  "adjacent_pairs xs = zip xs (tl xs)"

definition elapsed_days :: "csv_row \<Rightarrow> csv_row \<Rightarrow> int" where
  "elapsed_days r1 r2 =
     (case (START r1, START r2) of
        (Some d1, Some d2) \<Rightarrow> (case dt_sub d2 d1 of Inr td \<Rightarrow> days td | Inl e \<Rightarrow> 0)
      | _ \<Rightarrow> 0)"

definition adjacent_observations :: "csv_row list \<Rightarrow> (journey_key \<times> int) list" where
  "adjacent_observations rows =
     map (\<lambda>(r1, r2). ((DESCRIPTION r1, DESCRIPTION r2), elapsed_days r1 r2))
       (filter (\<lambda>(r1, r2). PATIENT r1 = PATIENT r2) (adjacent_pairs rows))"

text \<open>Appending a sequence of keyed observations to a dictionary, one after the other.\<close>

definition collect :: "('k \<times> 'a) list \<Rightarrow> ('k, 'a list) odict \<Rightarrow> ('k, 'a list) odict" where
  "collect obs m = fold (\<lambda>(k, x) acc. dict_append k x acc) obs m"

text \<open>The previous-row slot of a loop state as a list of rows: empty or one row.\<close>

definition previous_row :: "extractor_state \<Rightarrow> csv_row list" where
  "previous_row s =
     (case previous s of
        None \<Rightarrow> []
      | Some (d, c, p) \<Rightarrow> [\<lparr>START = Some d, PATIENT = p, DESCRIPTION = c\<rparr>])"

section \<open>Notions used in the proofs about the builder\<close>

text \<open>
  What lines 86 to 88 do to the label list alone, and the dictionary that goes with a
  label list: every label mapped to its position.
\<close>

definition register :: "'a \<Rightarrow> 'a list \<Rightarrow> 'a list" where
  "register c ls = (if c \<in> set ls then ls else ls @ [c])"

definition label_map_of :: "'a list \<Rightarrow> ('a \<rightharpoonup> nat)" where
  "label_map_of ls = (\<lambda>c. if c \<in> set ls then Some (index_of c ls) else None)"

section \<open>The order of datetimes\<close>

text \<open>
  The order of two datetimes, as Python's comparison operators decide it (needed to say
  ``not earlier than''; the extractor itself never compares).  A datetime object always
  holds a real calendar date and time of day (\<open>valid_datetime\<close>).  Two naive values,
  or two aware values of equal offset, are compared field by field, the year first;
  two aware values of different offsets by the sign of their difference; a naive and an
  aware value cannot be ordered.
\<close>

definition DAYS_IN_MONTH :: "int list" where
  "DAYS_IN_MONTH = [0, 31, 28, 31, 30, 31, 30, 31, 31, 30, 31, 30, 31]"

definition days_in_month :: "int \<Rightarrow> int \<Rightarrow> int" where
  "days_in_month y m = (if m = 2 \<and> is_leap y then 29 else DAYS_IN_MONTH ! nat m)"

definition valid_datetime :: "datetime \<Rightarrow> bool" where
  "valid_datetime dt =
     (1 \<le> year dt \<and> year dt \<le> 9999 \<and> 1 \<le> month dt \<and> month dt \<le> 12
      \<and> 1 \<le> day dt \<and> day dt \<le> days_in_month (year dt) (month dt)
      \<and> 0 \<le> hour dt \<and> hour dt < 24 \<and> 0 \<le> minute dt \<and> minute dt < 60
      \<and> 0 \<le> second dt \<and> second dt < 60
      \<and> 0 \<le> microsecond dt \<and> microsecond dt < 1000000)"

fun lex_le :: "int list \<Rightarrow> int list \<Rightarrow> bool" where
  "lex_le [] ys = True"
| "lex_le (x # xs) [] = False"
| "lex_le (x # xs) (y # ys) = (x < y \<or> (x = y \<and> lex_le xs ys))"

definition fields :: "datetime \<Rightarrow> int list" where
  "fields dt = [year dt, month dt, day dt, hour dt, minute dt, second dt, microsecond dt]"

definition dt_ge :: "datetime \<Rightarrow> datetime \<Rightarrow> py_error + bool" where
  "dt_ge a b =
     (case (utcoffset a, utcoffset b) of
        (None, None) \<Rightarrow> Inr (lex_le (fields b) (fields a))
      | (Some myoff, Some otoff) \<Rightarrow>
          if myoff = otoff then Inr (lex_le (fields b) (fields a))
          else (case dt_sub a b of Inl e \<Rightarrow> Inl e | Inr td \<Rightarrow> Inr (\<not> days td < 0))
      | _ \<Rightarrow> Inl TypeError)"

section \<open>Inputs of the scenarios\<close>

text \<open>
  The naive datetime that a date-and-time text without offset denotes, and the one a
  date-only text denotes (midnight).
\<close>

definition naive_datetime :: "int \<Rightarrow> int \<Rightarrow> int \<Rightarrow> int \<Rightarrow> int \<Rightarrow> int \<Rightarrow> datetime" where
  "naive_datetime y m d h mi s =
     \<lparr>year = y, month = m, day = d, hour = h, minute = mi, second = s,
      microsecond = 0, utcoffset = None\<rparr>"

definition naive_date :: "int \<Rightarrow> int \<Rightarrow> int \<Rightarrow> datetime" where
  "naive_date y m d = naive_datetime y m d 0 0 0"

text \<open>A row whose timestamp is readable.\<close>

definition mk_row :: "string \<Rightarrow> string \<Rightarrow> datetime \<Rightarrow> csv_row" where
  "mk_row patient description start_date =
     \<lparr>START = Some start_date, PATIENT = patient, DESCRIPTION = description\<rparr>"

section \<open>Evaluation\<close>

lemmas calendar_defs =
  dt_sub_def toordinal_def ymd2ord_def days_before_year_def days_before_month_def
  DAYS_BEFORE_MONTH_def timedelta_def US_PER_DAY_def is_leap_def days_def
  naive_datetime_def naive_date_def

lemmas extractor_defs =
  process_conditions_data_def initial_state_def loop_body_def mk_row_def Let_def

lemmas builder_defs =
  create_sankey_diagram_def add_link_def register_label_def getitem_def empty_sankey_def
  links_def color_palette_def Let_def

section \<open>The scenario of four rows\<close>

text \<open>
  C1.  The pipeline on the rows (P1, A, 2020-01-01), (P1, B, 2020-01-05),
  (P2, C, 2020-01-01), (P2, D, 2020-01-02), in that order, returns without error; the
  transitions are {(A,B): [4], (C,D): [1]}, the statistics are total 4 and average 4
  for (A,B) and total 1 and average 1 for (C,D), the labels are [A, B, C, D] and the
  links are (0, 1, 4) and (2, 3, 1), in that order.
\<close>

theorem scenario_four_rows:
  "\<exists>r. main_pipeline
         [mk_row ''P1'' ''A'' (naive_date 2020 1 1), mk_row ''P1'' ''B'' (naive_date 2020 1 5),
          mk_row ''P2'' ''C'' (naive_date 2020 1 1), mk_row ''P2'' ''D'' (naive_date 2020 1 2)]
       = Inr r
     \<and> transitions r = [((''A'', ''B''), [4]), ((''C'', ''D''), [1])]
     \<and> times r = [((''A'', ''B''), \<lparr>average_time = 4, total_time = 4\<rparr>),
                   ((''C'', ''D''), \<lparr>average_time = 1, total_time = 1\<rparr>)]
     \<and> labels (diagram r) = [''A'', ''B'', ''C'', ''D'']
     \<and> links (diagram r) = [(0, 1, 4), (2, 3, 1)]"
proof -
  have extracted:
    "process_conditions_data
       [mk_row ''P1'' ''A'' (naive_date 2020 1 1), mk_row ''P1'' ''B'' (naive_date 2020 1 5),
        mk_row ''P2'' ''C'' (naive_date 2020 1 1), mk_row ''P2'' ''D'' (naive_date 2020 1 2)]
     = Inr [((''A'', ''B''), [4]), ((''C'', ''D''), [1])]"
    by (simp add: extractor_defs calendar_defs)
  have aggregated:
    "calculate_total_and_average_time [((''A'', ''B''), [4]), ((''C'', ''D''), [1])]
     = [((''A'', ''B''), \<lparr>average_time = 4, total_time = 4\<rparr>),
        ((''C'', ''D''), \<lparr>average_time = 1, total_time = 1\<rparr>)]"
    by (simp add: calculate_total_and_average_time_def stats_of_def Let_def)
  have built:
    "\<exists>g. create_sankey_diagram
           [((''A'', ''B''), \<lparr>average_time = 4, total_time = 4\<rparr>),
            ((''C'', ''D''), \<lparr>average_time = 1, total_time = 1\<rparr>)] = Inr g
       \<and> labels g = [''A'', ''B'', ''C'', ''D''] \<and> links g = [(0, 1, 4), (2, 3, 1)]"
    by (simp add: builder_defs)
  then obtain g where g:
    "create_sankey_diagram
       [((''A'', ''B''), \<lparr>average_time = 4, total_time = 4\<rparr>),
        ((''C'', ''D''), \<lparr>average_time = 1, total_time = 1\<rparr>)] = Inr g"
    "labels g = [''A'', ''B'', ''C'', ''D'']" "links g = [(0, 1, 4), (2, 3, 1)]"
    by blast
  show ?thesis
    unfolding main_pipeline_def extracted
    by (simp add: aggregated g Let_def)
qed

section \<open>The extractor: one step, and the whole loop\<close>

lemma run_rows_append:
  "run_rows s (xs @ ys) = (case run_rows s xs of Inl e \<Rightarrow> Inl e | Inr s' \<Rightarrow> run_rows s' ys)"
  by (induction xs arbitrary: s) (auto split: sum.splits)

lemma loop_body_previous:
  assumes "loop_body s r = Inr s'"
  shows "\<exists>d. START r = Some d \<and> previous s' = Some (d, DESCRIPTION r, PATIENT r)"
  using assms
  by (auto simp: loop_body_def Let_def split: option.splits if_splits sum.splits)

lemma run_rows_snoc_previous:
  assumes "run_rows s (pre @ [r]) = Inr s'"
  shows "\<exists>d. START r = Some d \<and> previous s' = Some (d, DESCRIPTION r, PATIENT r)"
proof -
  from assms obtain s0 where "run_rows s pre = Inr s0" "loop_body s0 r = Inr s'"
    by (auto simp: run_rows_append split: sum.splits)
  then show ?thesis using loop_body_previous by blast
qed

lemma loop_body_same_patient:
  assumes "previous s = Some (d1, c1, p)" "START r = Some d2" "PATIENT r = p"
    and "dt_sub d2 d1 = Inr td"
  shows "loop_body s r =
           Inr \<lparr>journey_time_diffs = dict_append (c1, DESCRIPTION r) (days td) (journey_time_diffs s),
                previous = Some (d2, DESCRIPTION r, PATIENT r)\<rparr>"
  using assms by (simp add: loop_body_def Let_def)

lemma loop_body_other_patient:
  assumes "previous s = Some (d1, c1, p)" "START r = Some d2" "PATIENT r \<noteq> p"
  shows "loop_body s r = Inr (s\<lparr>previous := Some (d2, DESCRIPTION r, PATIENT r)\<rparr>)"
  using assms by (simp add: loop_body_def Let_def)

lemma map_of_dict_append_same:
  "map_of (dict_append k x m) k = Some (observations m k @ [x])"
  by (induction m) (auto simp: observations_def)

lemma map_of_dict_append_other:
  "k' \<noteq> k \<Longrightarrow> map_of (dict_append k x m) k' = map_of m k'"
  by (induction m) auto

lemma observations_dict_append:
  "observations (dict_append k x m) k' = (if k' = k then observations m k @ [x] else observations m k')"
  by (simp add: observations_def map_of_dict_append_same map_of_dict_append_other)




lemma length_concat_dict_append:
  "length (concat (map snd (dict_append k x m))) = Suc (length (concat (map snd m)))"
  by (induction m) auto

lemma days_nonneg: "0 \<le> td \<Longrightarrow> 0 \<le> days td"
  by (simp add: days_def US_PER_DAY_def pos_imp_zdiv_nonneg_iff)

lemma days_trunc: "0 \<le> td \<Longrightarrow> days td = trunc_days td"
  by (simp add: days_def trunc_days_def)

lemma days_small_nonneg: "0 \<le> td \<Longrightarrow> td < US_PER_DAY \<Longrightarrow> days td = 0"
  by (simp add: days_def)

lemma days_small_neg: "td < 0 \<Longrightarrow> - US_PER_DAY \<le> td \<Longrightarrow> days td = - 1"
  unfolding days_def by (rule int_div_pos_eq [where r = "td + US_PER_DAY"]) (simp_all add: US_PER_DAY_def)

lemma adjacent_observations_Nil [simp]: "adjacent_observations [] = []"
  by (simp add: adjacent_observations_def adjacent_pairs_def)

lemma adjacent_observations_single [simp]: "adjacent_observations [r] = []"
  by (simp add: adjacent_observations_def adjacent_pairs_def)

lemma adjacent_observations_Cons2:
  "adjacent_observations (q # r # rows) =
     (if PATIENT q = PATIENT r then [((DESCRIPTION q, DESCRIPTION r), elapsed_days q r)] else [])
     @ adjacent_observations (r # rows)"
  by (simp add: adjacent_observations_def adjacent_pairs_def)

lemma collect_append: "collect (xs @ ys) m = collect ys (collect xs m)"
  by (simp add: collect_def)

lemma csv_row_eta:
  "START r = Some d \<Longrightarrow> \<lparr>START = Some d, PATIENT = PATIENT r, DESCRIPTION = DESCRIPTION r\<rparr> = r"
  by (cases r) simp

lemma loop_body_collect:
  assumes "loop_body s r = Inr s'"
  shows "previous_row s' = [r]
     \<and> journey_time_diffs s' =
         collect (adjacent_observations (previous_row s @ [r])) (journey_time_diffs s)"
proof -
  from loop_body_previous [OF assms] obtain d where
    d: "START r = Some d" "previous s' = Some (d, DESCRIPTION r, PATIENT r)" by blast
  have p: "previous_row s' = [r]"
    by (simp add: previous_row_def d csv_row_eta)
  have "journey_time_diffs s' =
          collect (adjacent_observations (previous_row s @ [r])) (journey_time_diffs s)"
  proof (cases "previous s")
    case None
    then have "previous_row s = []" by (simp add: previous_row_def)
    moreover from None assms d have "journey_time_diffs s' = journey_time_diffs s"
      by (auto simp: loop_body_def Let_def)
    ultimately show ?thesis by (simp add: collect_def)
  next
    case (Some t)
    obtain d1 c1 p1 where t: "t = (d1, c1, p1)" by (cases t)
    let ?q = "\<lparr>START = Some d1, PATIENT = p1, DESCRIPTION = c1\<rparr>"
    have q: "previous_row s = [?q]" by (simp add: previous_row_def Some t)
    show ?thesis
    proof (cases "p1 = PATIENT r")
      case True
      with assms Some t d obtain td where td: "dt_sub d d1 = Inr td"
        by (auto simp: loop_body_def Let_def split: sum.splits)
      from loop_body_same_patient [OF _ d(1) _ td, of s c1 "PATIENT r"] Some t True assms
      have "journey_time_diffs s' = dict_append (c1, DESCRIPTION r) (days td) (journey_time_diffs s)"
        by simp
      moreover have "elapsed_days ?q r = days td"
        by (simp add: elapsed_days_def d td)
      ultimately show ?thesis
        using True by (simp add: q adjacent_observations_Cons2 collect_def)
    next
      case False
      from loop_body_other_patient [OF _ d(1), of s d1 c1 p1] Some t False assms
      have "journey_time_diffs s' = journey_time_diffs s" by auto
      then show ?thesis
        using False by (simp add: q adjacent_observations_Cons2 collect_def)
    qed
  qed
  with p show ?thesis by simp
qed

lemma previous_row_cases: "previous_row s = [] \<or> (\<exists>q. previous_row s = [q])"
  by (auto simp: previous_row_def split: option.splits)

lemma adjacent_observations_snoc_Cons:
  "adjacent_observations (p @ r # rows) =
     adjacent_observations (p @ [r]) @ adjacent_observations (r # rows)"
  if "p = [] \<or> (\<exists>q. p = [q])"
  using that by (auto simp: adjacent_observations_Cons2)

lemma run_rows_collect:
  "run_rows s rows = Inr s' \<Longrightarrow>
     journey_time_diffs s' =
       collect (adjacent_observations (previous_row s @ rows)) (journey_time_diffs s)"
proof (induction rows arbitrary: s)
  case Nil
  then show ?case
    using previous_row_cases [of s] by (auto simp: collect_def)
next
  case (Cons r rows)
  from Cons.prems obtain s1 where s1: "loop_body s r = Inr s1" "run_rows s1 rows = Inr s'"
    by (auto split: sum.splits)
  from loop_body_collect [OF s1(1)] have
    a: "previous_row s1 = [r]" and
    b: "journey_time_diffs s1 =
          collect (adjacent_observations (previous_row s @ [r])) (journey_time_diffs s)"
    by simp_all
  from Cons.IH [OF s1(2)] have
    "journey_time_diffs s' = collect (adjacent_observations (r # rows)) (journey_time_diffs s1)"
    by (simp add: a)
  moreover have "adjacent_observations (previous_row s @ r # rows) =
      adjacent_observations (previous_row s @ [r]) @ adjacent_observations (r # rows)"
    by (rule adjacent_observations_snoc_Cons [OF previous_row_cases])
  ultimately show ?case
    by (simp only: b collect_append)
qed

lemma process_conditions_data_collect:
  "process_conditions_data rows = Inr m \<Longrightarrow> m = collect (adjacent_observations rows) []"
  using run_rows_collect [of initial_state rows]
  by (auto simp: process_conditions_data_def previous_row_def initial_state_def split: sum.splits)

section \<open>The calendar: a later datetime has a greater day count\<close>

lemma div_step:
  assumes "0 < (k::int)"
  shows "y div k - (y - 1) div k = (if y mod k = 0 then 1 else 0)"
proof (cases "y mod k = 0")
  case True
  have "y = k * (y div k) + y mod k" by simp
  with True have "y - 1 = k * (y div k - 1) + (k - 1)" by (simp add: algebra_simps)
  then have "(y - 1) div k = y div k - 1"
    by (rule int_div_pos_eq) (use assms in simp_all)
  with True show ?thesis by simp
next
  case False
  have "0 \<le> y mod k" "y mod k < k" using assms by simp_all
  with False have r: "0 \<le> y mod k - 1" "y mod k - 1 < k" by simp_all
  have "y = k * (y div k) + y mod k" by simp
  then have "y - 1 = k * (y div k) + (y mod k - 1)" by simp
  then have "(y - 1) div k = y div k"
    using r by (rule int_div_pos_eq)
  with False show ?thesis by simp
qed

lemma mod_400_100: "(y::int) mod 400 = 0 \<Longrightarrow> y mod 100 = 0"
  using mod_mod_cancel [of 100 400 y] by simp

lemma mod_100_4: "(y::int) mod 100 = 0 \<Longrightarrow> y mod 4 = 0"
  using mod_mod_cancel [of 4 100 y] by simp


lemma days_before_year_Suc:
  "days_before_year (y + 1) = days_before_year y + 365 + (if is_leap y then 1 else 0)"
proof -
  define p4 p100 p400 where "p4 \<longleftrightarrow> y mod 4 = 0" and "p100 \<longleftrightarrow> y mod 100 = 0"
    and "p400 \<longleftrightarrow> y mod 400 = 0"
  define A B C where "A = y div 4 - (y - 1) div 4" and "B = y div 100 - (y - 1) div 100"
    and "C = y div 400 - (y - 1) div 400"
  have a: "A = (if p4 then 1 else 0)" unfolding A_def p4_def by (rule div_step) simp
  have b: "B = (if p100 then 1 else 0)" unfolding B_def p100_def by (rule div_step) simp
  have c: "C = (if p400 then 1 else 0)" unfolding C_def p400_def by (rule div_step) simp
  have i1: "p400 \<Longrightarrow> p100" unfolding p400_def p100_def by (rule mod_400_100)
  have i2: "p100 \<Longrightarrow> p4" unfolding p100_def p4_def by (rule mod_100_4)
  have leap: "is_leap y \<longleftrightarrow> p4 \<and> (\<not> p100 \<or> p400)"
    unfolding is_leap_def p4_def p100_def p400_def by (rule refl)
  have "days_before_year (y + 1) - days_before_year y = 365 + A - B + C"
  proof -
    have gen: "y * 365 + a - b + c - ((y - 1) * 365 + a' - b' + c') =
        365 + (a - a') - (b - b') + (c - c')" for a b c a' b' c' :: int
      by (simp add: algebra_simps)
    show ?thesis
      unfolding days_before_year_def A_def B_def C_def
      by (simp only: add_diff_cancel_right') (rule gen)
  qed
  also have "\<dots> = 365 + (if is_leap y then 1 else 0)"
    unfolding leap a b c using i1 i2 by (cases p4; cases p100; cases p400) simp_all
  finally show ?thesis by simp
qed

lemma days_before_year_mono: "y \<le> y' \<Longrightarrow> days_before_year y \<le> days_before_year y'"
proof (induction y' rule: int_ge_induct)
  case base
  show ?case by simp
next
  case (step i)
  have "days_before_year i \<le> days_before_year (i + 1)"
    unfolding days_before_year_Suc by simp
  with step.IH show ?case by (rule order_trans)
qed


lemma month_cases:
  "1 \<le> m \<Longrightarrow> m \<le> 12 \<Longrightarrow>
     m = 1 \<or> m = 2 \<or> m = 3 \<or> m = 4 \<or> m = 5 \<or> m = 6 \<or> m = 7 \<or> m = 8 \<or> m = 9
     \<or> m = 10 \<or> m = 11 \<or> m = (12::int)"
  by arith

lemma days_before_month_next:
  assumes "1 \<le> m" "m \<le> 12"
  shows "days_before_month y m + days_in_month y m =
     (if m = 12 then 365 + (if is_leap y then 1 else 0) else days_before_month y (m + 1))"
  using month_cases [OF assms]
  by (elim disjE)
    (simp_all add: days_before_month_def days_in_month_def DAYS_BEFORE_MONTH_def
      DAYS_IN_MONTH_def)

lemma days_in_month_pos:
  assumes "1 \<le> m" "m \<le> 12"
  shows "1 \<le> days_in_month y m"
  using month_cases [OF assms]
  by (elim disjE) (simp_all add: days_in_month_def DAYS_IN_MONTH_def)

lemma days_before_month_nonneg: "0 \<le> days_before_month y m"
proof (cases "1 \<le> m \<and> m \<le> 12")
  case True
  then have "1 \<le> m" "m \<le> 12" by simp_all
  from month_cases [OF this] show ?thesis
    by (elim disjE) (simp_all add: days_before_month_def DAYS_BEFORE_MONTH_def)
next
  case False
  then have "days_before_month y m = 0" unfolding days_before_month_def by (rule if_not_P)
  then show ?thesis by simp
qed

lemma days_before_month_mono:
  "m \<le> m' \<Longrightarrow> 1 \<le> m \<Longrightarrow> m' \<le> 12 \<Longrightarrow> days_before_month y m \<le> days_before_month y m'"
proof (induction m' rule: int_ge_induct)
  case base
  show ?case by simp
next
  case (step i)
  then have i: "1 \<le> i" "i \<le> 12" "i \<noteq> 12" by simp_all
  from days_before_month_next [OF i(1,2), of y] i(3)
  have "days_before_month y (i + 1) = days_before_month y i + days_in_month y i" by simp
  with days_in_month_pos [OF i(1,2), of y] step show ?case by simp
qed

lemma days_before_month_strict:
  assumes "1 \<le> m" "m < m'" "m' \<le> 12"
  shows "days_before_month y m + days_in_month y m \<le> days_before_month y m'"
proof -
  from assms have m: "1 \<le> m" "m \<le> 12" "m \<noteq> 12" by simp_all
  from days_before_month_next [OF m(1,2), of y] m(3)
  have "days_before_month y m + days_in_month y m = days_before_month y (m + 1)" by simp
  also have "\<dots> \<le> days_before_month y m'"
    using assms by (intro days_before_month_mono) simp_all
  finally show ?thesis .
qed

lemma days_before_month_year:
  assumes "1 \<le> m" "m \<le> 12"
  shows "days_before_month y m + days_in_month y m \<le> 365 + (if is_leap y then 1 else 0)"
proof (cases "m = 12")
  case True
  with days_before_month_next [OF assms, of y] show ?thesis by simp
next
  case False
  with assms have "m < 12" by simp
  from days_before_month_strict [OF assms(1) this, of y]
  have "days_before_month y m + days_in_month y m \<le> days_before_month y 12" by simp
  also have "\<dots> \<le> days_before_month y 12 + days_in_month y 12"
    using days_in_month_pos [of 12 y] by simp
  also have "\<dots> = 365 + (if is_leap y then 1 else 0)"
    using days_before_month_next [of 12 y] by simp
  finally show ?thesis .
qed

lemma ymd2ord_less:
  assumes v: "1 \<le> m" "m \<le> 12" "1 \<le> d" "d \<le> days_in_month y m"
    and v': "1 \<le> m'" "m' \<le> 12" "1 \<le> d'" "d' \<le> days_in_month y' m'"
    and lt: "y < y' \<or> (y = y' \<and> (m < m' \<or> (m = m' \<and> d < d')))"
  shows "ymd2ord y m d < ymd2ord y' m' d'"
proof -
  consider "y < y'" | "y = y'" "m < m'" | "y = y'" "m = m'" "d < d'"
    using lt by blast
  then show ?thesis
  proof cases
    case 1
    have "ymd2ord y m d \<le> days_before_year y + (days_before_month y m + days_in_month y m)"
      using v(4) by (simp add: ymd2ord_def)
    also have "\<dots> \<le> days_before_year y + (365 + (if is_leap y then 1 else 0))"
      using days_before_month_year [OF v(1,2), of y] by simp
    also have "\<dots> = days_before_year (y + 1)"
      by (simp add: days_before_year_Suc)
    also have "\<dots> \<le> days_before_year y'"
      using 1 by (intro days_before_year_mono) simp
    also have "\<dots> < ymd2ord y' m' d'"
      using days_before_month_nonneg [of y' m'] v'(3) by (simp add: ymd2ord_def)
    finally show ?thesis .
  next
    case 2
    have "days_before_month y m + d \<le> days_before_month y m + days_in_month y m"
      using v(4) by simp
    also have "\<dots> \<le> days_before_month y m'"
      using v(1) 2(2) v'(2) by (rule days_before_month_strict)
    also have "\<dots> < days_before_month y m' + d'" using v'(3) by simp
    finally show ?thesis using 2(1) by (simp add: ymd2ord_def)
  next
    case 3
    then show ?thesis by (simp add: ymd2ord_def)
  qed
qed

lemma lex_le_fields:
  "lex_le (fields b) (fields a) \<longleftrightarrow>
     (year b < year a \<or> (year b = year a \<and> (month b < month a \<or> (month b = month a \<and>
        day b < day a))))
     \<or> (year b = year a \<and> month b = month a \<and> day b = day a \<and>
         (hour b < hour a \<or> (hour b = hour a \<and> (minute b < minute a \<or> (minute b = minute a \<and>
            (second b < second a \<or> (second b = second a \<and> microsecond b \<le> microsecond a)))))))"
  by (auto simp: fields_def)

lemma time_of_day_bounds:
  assumes "valid_datetime a"
  shows "0 \<le> second a + minute a * 60 + hour a * 3600"
    and "second a + minute a * 60 + hour a * 3600 < 86400"
    and "0 \<le> microsecond a" and "microsecond a < 1000000"
  using assms by (simp_all add: valid_datetime_def)

lemma base_difference_nonneg:
  assumes a: "valid_datetime a" and b: "valid_datetime b"
    and le: "lex_le (fields b) (fields a)"
  shows "0 \<le> timedelta (toordinal a - toordinal b)
            ((second a + minute a * 60 + hour a * 3600)
             - (second b + minute b * 60 + hour b * 3600))
            (microsecond a - microsecond b)"
proof -
  let ?sa = "second a + minute a * 60 + hour a * 3600"
  let ?sb = "second b + minute b * 60 + hour b * 3600"
  note ta = time_of_day_bounds [OF a] and tb = time_of_day_bounds [OF b]
  from le [unfolded lex_le_fields] consider
    (date) "year b < year a \<or> (year b = year a \<and> (month b < month a \<or> (month b = month a \<and>
        day b < day a)))"
    | (time) "year b = year a" "month b = month a" "day b = day a"
        "hour b < hour a \<or> (hour b = hour a \<and> (minute b < minute a \<or> (minute b = minute a \<and>
            (second b < second a \<or> (second b = second a \<and> microsecond b \<le> microsecond a)))))"
    by blast
  then show ?thesis
  proof cases
    case date
    have "ymd2ord (year b) (month b) (day b) < ymd2ord (year a) (month a) (day a)"
      using a b by (intro ymd2ord_less date) (simp_all add: valid_datetime_def)
    then have "1 \<le> toordinal a - toordinal b" by (simp add: toordinal_def)
    then have "86400 \<le> (toordinal a - toordinal b) * 86400" by simp
    with ta tb show ?thesis unfolding timedelta_def by simp
  next
    case time
    then have o: "toordinal a - toordinal b = 0" by (simp add: toordinal_def)
    from a b have m: "0 \<le> minute a" "minute a < 60" "0 \<le> minute b" "minute b < 60"
      "0 \<le> second a" "second a < 60" "0 \<le> second b" "second b < 60"
      by (simp_all add: valid_datetime_def)
    from time(4) m ta tb have "?sb < ?sa \<or> (?sb = ?sa \<and> microsecond b \<le> microsecond a)"
      by auto
    with ta tb show ?thesis unfolding timedelta_def o by auto
  qed
qed

lemma dt_ge_difference_nonneg:
  assumes "valid_datetime a" and "valid_datetime b" and "dt_ge a b = Inr True"
  shows "\<exists>td. dt_sub a b = Inr td \<and> 0 \<le> td"
proof (cases "utcoffset a")
  case None
  with assms(3) have n: "utcoffset b = None" and le: "lex_le (fields b) (fields a)"
    by (auto simp: dt_ge_def split: option.splits)
  from base_difference_nonneg [OF assms(1,2) le] None n show ?thesis
    by (simp add: dt_sub_def Let_def)
next
  case (Some myoff)
  with assms(3) obtain otoff where o: "utcoffset b = Some otoff"
    by (auto simp: dt_ge_def split: option.splits)
  show ?thesis
  proof (cases "myoff = otoff")
    case True
    with assms(3) Some o have le: "lex_le (fields b) (fields a)"
      by (simp add: dt_ge_def)
    from base_difference_nonneg [OF assms(1,2) le] Some o True show ?thesis
      by (simp add: dt_sub_def Let_def)
  next
    case False
    with assms(3) Some o obtain td where td: "dt_sub a b = Inr td" "\<not> days td < 0"
      by (auto simp: dt_ge_def split: sum.splits)
    have "0 \<le> td"
    proof (rule ccontr)
      assume "\<not> 0 \<le> td"
      then have "td < 0" by simp
      then have "days td < 0" by (simp add: days_def US_PER_DAY_def neg_imp_zdiv_neg_iff)
      with td(2) show False by simp
    qed
    with td(1) show ?thesis by blast
  qed
qed

section \<open>Adjacent rows of one patient\<close>

lemma same_patient_pair_step:
  assumes run: "run_rows initial_state (pre @ [r1]) = Inr s1"
    and st: "START r1 = Some d1" "START r2 = Some d2"
    and pat: "PATIENT r2 = PATIENT r1"
    and sub: "dt_sub d2 d1 = Inr td"
  shows "run_rows initial_state (pre @ [r1, r2]) =
           Inr \<lparr>journey_time_diffs =
                  dict_append (DESCRIPTION r1, DESCRIPTION r2) (days td) (journey_time_diffs s1),
                previous = Some (d2, DESCRIPTION r2, PATIENT r2)\<rparr>"
proof -
  from run_rows_snoc_previous [OF run] st(1)
  have prev: "previous s1 = Some (d1, DESCRIPTION r1, PATIENT r1)" by auto
  have "run_rows initial_state (pre @ [r1, r2]) = loop_body s1 r2"
    using run_rows_append [of initial_state "pre @ [r1]" "[r2]"] run
    by (simp split: sum.splits)
  also note loop_body_same_patient [OF prev st(2) pat sub]
  finally show ?thesis .
qed

lemma run_rows_observations_grow:
  "run_rows s rows = Inr s' \<Longrightarrow>
     \<exists>ys. observations (journey_time_diffs s') k = observations (journey_time_diffs s) k @ ys"
proof (induction rows arbitrary: s)
  case Nil
  then show ?case by simp
next
  case (Cons r rows)
  from Cons.prems obtain s1 where s1: "loop_body s r = Inr s1" "run_rows s1 rows = Inr s'"
    by (auto split: sum.splits)
  from s1(1) have "\<exists>ys. observations (journey_time_diffs s1) k = observations (journey_time_diffs s) k @ ys"
    by (auto simp: loop_body_def Let_def observations_dict_append split: option.splits if_splits sum.splits)
  moreover from Cons.IH [OF s1(2)]
  have "\<exists>ys. observations (journey_time_diffs s') k = observations (journey_time_diffs s1) k @ ys" .
  ultimately show ?case by auto
qed

text \<open>
  C2.  Let \<open>r1\<close> and \<open>r2\<close> be directly adjacent rows of the same patient, reached by the
  run without error, with the start date of \<open>r2\<close> not earlier than that of \<open>r1\<close>
  (Python's \<^verbatim>\<open>>=\<close> on the two datetimes).  Then their difference \<open>td\<close> is defined and
  the step for \<open>r2\<close> appends exactly one observation: the dictionary after \<open>r2\<close> is the
  one after \<open>r1\<close> with one value appended under the key (description of \<open>r1\<close>,
  description of \<open>r2\<close>); the list under every other key is unchanged and the number of
  stored observations grows by one.  The value is the whole-day truncation of the
  difference and is not negative.  It stays in the dictionary that the extractor
  returns.
\<close>

theorem same_patient_pair_observation:
  assumes "run_rows initial_state (pre @ [r1]) = Inr s1"
    and "START r1 = Some d1" and "START r2 = Some d2"
    and "valid_datetime d1" and "valid_datetime d2"
    and "PATIENT r2 = PATIENT r1"
    and "dt_ge d2 d1 = Inr True"
  shows "\<exists>td s2. dt_sub d2 d1 = Inr td \<and> 0 \<le> td
      \<and> run_rows initial_state (pre @ [r1, r2]) = Inr s2
      \<and> journey_time_diffs s2 =
          dict_append (DESCRIPTION r1, DESCRIPTION r2) (trunc_days td) (journey_time_diffs s1)
      \<and> (\<forall>k. observations (journey_time_diffs s2) k =
            (if k = (DESCRIPTION r1, DESCRIPTION r2)
             then observations (journey_time_diffs s1) k @ [trunc_days td]
             else observations (journey_time_diffs s1) k))
      \<and> length (concat (map snd (journey_time_diffs s2))) =
          Suc (length (concat (map snd (journey_time_diffs s1))))
      \<and> 0 \<le> trunc_days td
      \<and> process_conditions_data (pre @ r1 # r2 # post) =
          (case run_rows s2 post of Inl e \<Rightarrow> Inl e | Inr s \<Rightarrow> Inr (journey_time_diffs s))
      \<and> (process_conditions_data (pre @ r1 # r2 # post) = Inr m \<longrightarrow>
           (\<exists>ys. observations m (DESCRIPTION r1, DESCRIPTION r2) =
              observations (journey_time_diffs s1) (DESCRIPTION r1, DESCRIPTION r2)
                @ trunc_days td # ys))"
proof -
  from dt_ge_difference_nonneg [OF assms(5,4,7)] obtain td where
    td: "dt_sub d2 d1 = Inr td" "0 \<le> td" by blast
  let ?k = "(DESCRIPTION r1, DESCRIPTION r2)"
  let ?s2 = "\<lparr>journey_time_diffs = dict_append ?k (days td) (journey_time_diffs s1),
              previous = Some (d2, DESCRIPTION r2, PATIENT r2)\<rparr>"
  have eq: "days td = trunc_days td" using td(2) by (rule days_trunc)
  have step: "run_rows initial_state (pre @ [r1, r2]) = Inr ?s2"
    using assms(1-3,6) td(1) by (rule same_patient_pair_step)
  have whole: "process_conditions_data (pre @ r1 # r2 # post) =
          (case run_rows ?s2 post of Inl e \<Rightarrow> Inl e | Inr s \<Rightarrow> Inr (journey_time_diffs s))"
  proof -
    have "run_rows initial_state (pre @ r1 # r2 # post) = run_rows ?s2 post"
      using run_rows_append [of initial_state "pre @ [r1, r2]" post] step
      by simp
    then show ?thesis by (simp add: process_conditions_data_def)
  qed
  have final: "\<exists>ys. observations m ?k = observations (journey_time_diffs s1) ?k @ trunc_days td # ys"
    if "process_conditions_data (pre @ r1 # r2 # post) = Inr m"
  proof -
    from that whole obtain s where s: "run_rows ?s2 post = Inr s" "m = journey_time_diffs s"
      by (auto split: sum.splits)
    from run_rows_observations_grow [OF s(1), of ?k] obtain ys where
      "observations m ?k = observations (journey_time_diffs ?s2) ?k @ ys"
      using s(2) by auto
    then show ?thesis by (simp add: observations_dict_append eq)
  qed
  show ?thesis
  proof (intro exI [of _ td] exI [of _ ?s2] conjI)
    show "dt_sub d2 d1 = Inr td" by (rule td(1))
    show "0 \<le> td" by (rule td(2))
    show "run_rows initial_state (pre @ [r1, r2]) = Inr ?s2" by (rule step)
    show "journey_time_diffs ?s2 = dict_append ?k (trunc_days td) (journey_time_diffs s1)"
      by (simp add: eq)
    show "\<forall>k. observations (journey_time_diffs ?s2) k =
            (if k = ?k then observations (journey_time_diffs s1) k @ [trunc_days td]
             else observations (journey_time_diffs s1) k)"
      by (simp add: observations_dict_append eq)
    show "length (concat (map snd (journey_time_diffs ?s2))) =
          Suc (length (concat (map snd (journey_time_diffs s1))))"
      by (simp add: length_concat_dict_append)
    show "0 \<le> trunc_days td" using days_nonneg [OF td(2)] by (simp add: eq)
    show "process_conditions_data (pre @ r1 # r2 # post) =
          (case run_rows ?s2 post of Inl e \<Rightarrow> Inl e | Inr s \<Rightarrow> Inr (journey_time_diffs s))"
      by (rule whole)
    show "process_conditions_data (pre @ r1 # r2 # post) = Inr m \<longrightarrow>
           (\<exists>ys. observations m ?k = observations (journey_time_diffs s1) ?k @ trunc_days td # ys)"
      using final by blast
  qed
qed

theorem same_patient_pair_observation_witness:
  "(run_rows initial_state ([] @ [mk_row ''P1'' ''A'' (naive_date 2020 1 1)]) =
      Inr \<lparr>journey_time_diffs = [], previous = Some (naive_date 2020 1 1, ''A'', ''P1'')\<rparr>
    \<and> START (mk_row ''P1'' ''A'' (naive_date 2020 1 1)) = Some (naive_date 2020 1 1)
    \<and> START (mk_row ''P1'' ''B'' (naive_datetime 2020 1 5 13 30 0)) =
        Some (naive_datetime 2020 1 5 13 30 0)
    \<and> valid_datetime (naive_date 2020 1 1)
    \<and> valid_datetime (naive_datetime 2020 1 5 13 30 0)
    \<and> PATIENT (mk_row ''P1'' ''B'' (naive_datetime 2020 1 5 13 30 0)) =
        PATIENT (mk_row ''P1'' ''A'' (naive_date 2020 1 1))
    \<and> dt_ge (naive_datetime 2020 1 5 13 30 0) (naive_date 2020 1 1) = Inr True)
   \<and> dt_sub (naive_datetime 2020 1 5 13 30 0) (naive_date 2020 1 1) = Inr 394200000000
   \<and> trunc_days 394200000000 = 4
   \<and> process_conditions_data
        [mk_row ''P1'' ''A'' (naive_date 2020 1 1),
         mk_row ''P1'' ''B'' (naive_datetime 2020 1 5 13 30 0)] = Inr [((''A'', ''B''), [4])]
   \<and> observations [((''A'', ''B''), [4::int])] (''A'', ''B'') = [] @ [4]"
proof -
  let ?r1 = "mk_row ''P1'' ''A'' (naive_date 2020 1 1)"
  let ?r2 = "mk_row ''P1'' ''B'' (naive_datetime 2020 1 5 13 30 0)"
  let ?s1 = "\<lparr>journey_time_diffs = [], previous = Some (naive_date 2020 1 1, ''A'', ''P1'')\<rparr>"
  have h1: "run_rows initial_state ([] @ [?r1]) = Inr ?s1"
    by (simp add: extractor_defs)
  have h2: "START ?r1 = Some (naive_date 2020 1 1)" by (simp add: mk_row_def)
  have h3: "START ?r2 = Some (naive_datetime 2020 1 5 13 30 0)" by (simp add: mk_row_def)
  have h4: "valid_datetime (naive_date 2020 1 1)"
    by (simp add: valid_datetime_def days_in_month_def DAYS_IN_MONTH_def naive_date_def
        naive_datetime_def)
  have h5: "valid_datetime (naive_datetime 2020 1 5 13 30 0)"
    by (simp add: valid_datetime_def days_in_month_def DAYS_IN_MONTH_def naive_datetime_def)
  have h6: "PATIENT ?r2 = PATIENT ?r1" by (simp add: mk_row_def)
  have h7: "dt_ge (naive_datetime 2020 1 5 13 30 0) (naive_date 2020 1 1) = Inr True"
    by (simp add: dt_ge_def fields_def naive_date_def naive_datetime_def)
  have d: "dt_sub (naive_datetime 2020 1 5 13 30 0) (naive_date 2020 1 1) = Inr 394200000000"
    by (simp add: calendar_defs)
  have t: "trunc_days 394200000000 = 4" by (simp add: trunc_days_def US_PER_DAY_def)
  from same_patient_pair_observation [OF h1 h2 h3 h4 h5 h6 h7, of "[]" "[((''A'', ''B''), [4])]"]
  obtain td s2 where s2:
    "dt_sub (naive_datetime 2020 1 5 13 30 0) (naive_date 2020 1 1) = Inr td"
    "journey_time_diffs s2 = dict_append (DESCRIPTION ?r1, DESCRIPTION ?r2) (trunc_days td)
        (journey_time_diffs ?s1)"
    "process_conditions_data ([] @ ?r1 # ?r2 # []) =
       (case run_rows s2 [] of Inl e \<Rightarrow> Inl e | Inr s \<Rightarrow> Inr (journey_time_diffs s))"
    by blast
  from s2(1) d have td: "td = 394200000000" by simp
  have p: "process_conditions_data [?r1, ?r2] = Inr [((''A'', ''B''), [4])]"
    using s2(2,3) by (simp add: td t mk_row_def)
  have ob: "observations [((''A'', ''B''), [4::int])] (''A'', ''B'') = [] @ [4]"
    by (simp add: observations_def)
  show ?thesis
    using h1 h2 h3 h4 h5 h6 h7 d t p ob by (intro conjI)
qed

section \<open>Patient boundaries\<close>

lemma other_patient_pair_step:
  assumes run: "run_rows initial_state (pre @ [r1]) = Inr s1"
    and st: "START r2 = Some d2"
    and pat: "PATIENT r2 \<noteq> PATIENT r1"
  shows "run_rows initial_state (pre @ [r1, r2]) =
           Inr (s1\<lparr>previous := Some (d2, DESCRIPTION r2, PATIENT r2)\<rparr>)"
proof -
  from run_rows_snoc_previous [OF run] obtain d1 where
    prev: "previous s1 = Some (d1, DESCRIPTION r1, PATIENT r1)" by auto
  have "run_rows initial_state (pre @ [r1, r2]) = loop_body s1 r2"
    using run_rows_append [of initial_state "pre @ [r1]" "[r2]"] run
    by (simp split: sum.splits)
  also note loop_body_other_patient [OF prev st pat]
  finally show ?thesis .
qed

text \<open>
  C3.  When two directly adjacent rows belong to different patients, the step for the
  second row leaves the dictionary as it was and replaces the previous-row slot by the
  second row, so the rest of the run starts from that row.  And the dictionary of any
  completed run is exactly what appending one observation per pair of directly
  adjacent rows of equal patient gives, in stream order: it holds as many observations
  as there are such pairs, so none comes from rows that are not adjacent.
\<close>

theorem patient_boundary_and_adjacency:
  "(run_rows initial_state (pre @ [r1]) = Inr s1 \<longrightarrow> START r2 = Some d2 \<longrightarrow>
      PATIENT r2 \<noteq> PATIENT r1 \<longrightarrow>
      (\<exists>s2. run_rows initial_state (pre @ [r1, r2]) = Inr s2
         \<and> journey_time_diffs s2 = journey_time_diffs s1
         \<and> previous s2 = Some (d2, DESCRIPTION r2, PATIENT r2)
         \<and> process_conditions_data (pre @ r1 # r2 # post) =
             (case run_rows s2 post of Inl e \<Rightarrow> Inl e | Inr s \<Rightarrow> Inr (journey_time_diffs s))))
   \<and> (process_conditions_data rows = Inr m \<longrightarrow>
        m = collect (adjacent_observations rows) []
        \<and> length (concat (map snd m)) =
            length (filter (\<lambda>(a, b). PATIENT a = PATIENT b) (adjacent_pairs rows)))"
proof (intro conjI impI)
  assume run: "run_rows initial_state (pre @ [r1]) = Inr s1"
    and st: "START r2 = Some d2" and pat: "PATIENT r2 \<noteq> PATIENT r1"
  let ?s2 = "s1\<lparr>previous := Some (d2, DESCRIPTION r2, PATIENT r2)\<rparr>"
  have step: "run_rows initial_state (pre @ [r1, r2]) = Inr ?s2"
    using run st pat by (rule other_patient_pair_step)
  have "run_rows initial_state (pre @ r1 # r2 # post) = run_rows ?s2 post"
    using run_rows_append [of initial_state "pre @ [r1, r2]" post] step by simp
  then have "process_conditions_data (pre @ r1 # r2 # post) =
      (case run_rows ?s2 post of Inl e \<Rightarrow> Inl e | Inr s \<Rightarrow> Inr (journey_time_diffs s))"
    by (simp add: process_conditions_data_def)
  with step show "\<exists>s2. run_rows initial_state (pre @ [r1, r2]) = Inr s2
         \<and> journey_time_diffs s2 = journey_time_diffs s1
         \<and> previous s2 = Some (d2, DESCRIPTION r2, PATIENT r2)
         \<and> process_conditions_data (pre @ r1 # r2 # post) =
             (case run_rows s2 post of Inl e \<Rightarrow> Inl e | Inr s \<Rightarrow> Inr (journey_time_diffs s))"
    by (intro exI [of _ ?s2]) simp
next
  assume "process_conditions_data rows = Inr m"
  then show "m = collect (adjacent_observations rows) []"
    by (rule process_conditions_data_collect)
next
  assume "process_conditions_data rows = Inr m"
  then have m: "m = collect (adjacent_observations rows) []"
    by (rule process_conditions_data_collect)
  have "length (concat (map snd (collect obs acc))) = length (concat (map snd acc)) + length obs"
    for obs :: "(journey_key \<times> int) list" and acc
    by (induction obs arbitrary: acc)
      (auto simp: collect_def length_concat_dict_append simp del: length_concat)
  from this [of "adjacent_observations rows" "[]"]
  show "length (concat (map snd m)) =
            length (filter (\<lambda>(a, b). PATIENT a = PATIENT b) (adjacent_pairs rows))"
    by (simp add: m adjacent_observations_def del: length_concat)
qed

theorem patient_boundary_and_adjacency_witness:
  "(run_rows initial_state ([] @ [mk_row ''P1'' ''A'' (naive_date 2020 1 1)]) =
      Inr \<lparr>journey_time_diffs = [], previous = Some (naive_date 2020 1 1, ''A'', ''P1'')\<rparr>
    \<and> START (mk_row ''P2'' ''B'' (naive_date 2020 1 3)) = Some (naive_date 2020 1 3)
    \<and> PATIENT (mk_row ''P2'' ''B'' (naive_date 2020 1 3)) \<noteq>
        PATIENT (mk_row ''P1'' ''A'' (naive_date 2020 1 1))
    \<and> process_conditions_data
        [mk_row ''P1'' ''A'' (naive_date 2020 1 1), mk_row ''P2'' ''B'' (naive_date 2020 1 3),
         mk_row ''P1'' ''C'' (naive_date 2020 1 9)] = Inr [])
   \<and> (\<exists>s2. run_rows initial_state
              ([] @ [mk_row ''P1'' ''A'' (naive_date 2020 1 1),
                     mk_row ''P2'' ''B'' (naive_date 2020 1 3)]) = Inr s2
         \<and> journey_time_diffs s2 = []
         \<and> previous s2 = Some (naive_date 2020 1 3, ''B'', ''P2''))
   \<and> [] = collect (adjacent_observations
        [mk_row ''P1'' ''A'' (naive_date 2020 1 1), mk_row ''P2'' ''B'' (naive_date 2020 1 3),
         mk_row ''P1'' ''C'' (naive_date 2020 1 9)]) ([] :: (journey_key, int list) odict)"
proof -
  let ?r1 = "mk_row ''P1'' ''A'' (naive_date 2020 1 1)"
  let ?r2 = "mk_row ''P2'' ''B'' (naive_date 2020 1 3)"
  let ?r3 = "mk_row ''P1'' ''C'' (naive_date 2020 1 9)"
  let ?s1 = "\<lparr>journey_time_diffs = [], previous = Some (naive_date 2020 1 1, ''A'', ''P1'')\<rparr>"
  have h1: "run_rows initial_state ([] @ [?r1]) = Inr ?s1"
    by (simp add: extractor_defs)
  have h2: "START ?r2 = Some (naive_date 2020 1 3)" by (simp add: mk_row_def)
  have h3: "PATIENT ?r2 \<noteq> PATIENT ?r1" by (simp add: mk_row_def)
  have h4: "process_conditions_data [?r1, ?r2, ?r3] = Inr []"
    by (simp add: extractor_defs)
  note t = patient_boundary_and_adjacency
    [of "[]" ?r1 ?s1 ?r2 "naive_date 2020 1 3" "[?r3]" "[?r1, ?r2, ?r3]" "[]"]
  from t h1 h2 h3 have
    a: "\<exists>s2. run_rows initial_state ([] @ [?r1, ?r2]) = Inr s2
         \<and> journey_time_diffs s2 = []
         \<and> previous s2 = Some (naive_date 2020 1 3, ''B'', ''P2'')"
    by (auto simp: mk_row_def)
  from t h4 have b: "[] = collect (adjacent_observations [?r1, ?r2, ?r3]) ([] :: (journey_key, int list) odict)"
    by blast
  show ?thesis
    using h1 h2 h3 h4 a b by (intro conjI)
qed

section \<open>Empty and one-row streams\<close>

text \<open>
  C8.  A stream with no row gives the empty transition map, the empty statistics and
  the diagram model with no label and no link, without error; so does a stream with
  exactly one row (whose start date is readable).
\<close>

theorem empty_and_single_record_stream:
  "process_conditions_data [] = Inr []
   \<and> calculate_total_and_average_time [] = []
   \<and> create_sankey_diagram [] = Inr empty_sankey
   \<and> labels empty_sankey = [] \<and> links empty_sankey = []
   \<and> main_pipeline [] = Inr \<lparr>transitions = [], times = [], diagram = empty_sankey\<rparr>
   \<and> (START r = Some d \<longrightarrow>
        process_conditions_data [r] = Inr []
        \<and> main_pipeline [r] = Inr \<lparr>transitions = [], times = [], diagram = empty_sankey\<rparr>)"
proof -
  have e: "process_conditions_data [] = Inr []"
    by (simp add: process_conditions_data_def initial_state_def)
  have c: "calculate_total_and_average_time [] = []"
    by (simp add: calculate_total_and_average_time_def)
  have b: "create_sankey_diagram [] = Inr empty_sankey"
    by (simp add: create_sankey_diagram_def)
  have l: "labels empty_sankey = []" "links empty_sankey = []"
    by (simp_all add: empty_sankey_def links_def)
  have one: "process_conditions_data [r] = Inr []" if "START r = Some d"
    using that by (simp add: process_conditions_data_def initial_state_def loop_body_def Let_def)
  show ?thesis
    using e c b l one by (simp add: main_pipeline_def)
qed

theorem empty_and_single_record_stream_witness:
  "START (mk_row ''P1'' ''A'' (naive_date 2020 1 1)) = Some (naive_date 2020 1 1)
   \<and> process_conditions_data [mk_row ''P1'' ''A'' (naive_date 2020 1 1)] = Inr []
   \<and> main_pipeline [mk_row ''P1'' ''A'' (naive_date 2020 1 1)] =
       Inr \<lparr>transitions = [], times = [], diagram = empty_sankey\<rparr>"
proof -
  have h: "START (mk_row ''P1'' ''A'' (naive_date 2020 1 1)) = Some (naive_date 2020 1 1)"
    by (simp add: mk_row_def)
  from empty_and_single_record_stream
    [of "mk_row ''P1'' ''A'' (naive_date 2020 1 1)" "naive_date 2020 1 1"] h
  show ?thesis by blast
qed

section \<open>Differences shorter than a day\<close>

text \<open>
  C9, as amended.  For two directly adjacent rows of the same patient whose start dates
  differ by less than 24 hours in absolute value, the observation is 0 when the second
  start date is not earlier than the first, and -1 when it is earlier: the day count is
  the floor of the difference, not its truncation toward zero.
\<close>

theorem small_difference_observation:
  assumes "run_rows initial_state (pre @ [r1]) = Inr s1"
    and "START r1 = Some d1" and "START r2 = Some d2"
    and "PATIENT r2 = PATIENT r1"
    and "dt_sub d2 d1 = Inr td" and "\<bar>td\<bar> < US_PER_DAY"
  shows "\<exists>s2. run_rows initial_state (pre @ [r1, r2]) = Inr s2
      \<and> journey_time_diffs s2 =
          dict_append (DESCRIPTION r1, DESCRIPTION r2) (if 0 \<le> td then 0 else - 1)
            (journey_time_diffs s1)"
proof -
  have "days td = (if 0 \<le> td then 0 else - 1)"
    using assms(6) by (auto simp: days_small_nonneg days_small_neg)
  with same_patient_pair_step [OF assms(1-5)] show ?thesis by simp
qed

theorem small_difference_observation_witness:
  "(run_rows initial_state ([] @ [mk_row ''P7'' ''X'' (naive_datetime 2020 3 1 6 0 0)]) =
      Inr \<lparr>journey_time_diffs = [],
           previous = Some (naive_datetime 2020 3 1 6 0 0, ''X'', ''P7'')\<rparr>
    \<and> START (mk_row ''P7'' ''X'' (naive_datetime 2020 3 1 6 0 0)) =
        Some (naive_datetime 2020 3 1 6 0 0)
    \<and> START (mk_row ''P7'' ''Y'' (naive_datetime 2020 2 29 23 0 0)) =
        Some (naive_datetime 2020 2 29 23 0 0)
    \<and> PATIENT (mk_row ''P7'' ''Y'' (naive_datetime 2020 2 29 23 0 0)) =
        PATIENT (mk_row ''P7'' ''X'' (naive_datetime 2020 3 1 6 0 0))
    \<and> dt_sub (naive_datetime 2020 2 29 23 0 0) (naive_datetime 2020 3 1 6 0 0) =
        Inr (- 25200000000)
    \<and> \<bar>- 25200000000\<bar> < US_PER_DAY)
   \<and> (\<exists>s2. run_rows initial_state
              ([] @ [mk_row ''P7'' ''X'' (naive_datetime 2020 3 1 6 0 0),
                     mk_row ''P7'' ''Y'' (naive_datetime 2020 2 29 23 0 0)]) = Inr s2
         \<and> journey_time_diffs s2 = [((''X'', ''Y''), [- 1])])"
proof -
  let ?r1 = "mk_row ''P7'' ''X'' (naive_datetime 2020 3 1 6 0 0)"
  let ?r2 = "mk_row ''P7'' ''Y'' (naive_datetime 2020 2 29 23 0 0)"
  let ?s1 = "\<lparr>journey_time_diffs = [],
              previous = Some (naive_datetime 2020 3 1 6 0 0, ''X'', ''P7'')\<rparr>"
  have h1: "run_rows initial_state ([] @ [?r1]) = Inr ?s1"
    by (simp add: extractor_defs)
  have h2: "START ?r1 = Some (naive_datetime 2020 3 1 6 0 0)" by (simp add: mk_row_def)
  have h3: "START ?r2 = Some (naive_datetime 2020 2 29 23 0 0)" by (simp add: mk_row_def)
  have h4: "PATIENT ?r2 = PATIENT ?r1" by (simp add: mk_row_def)
  have h5: "dt_sub (naive_datetime 2020 2 29 23 0 0) (naive_datetime 2020 3 1 6 0 0) =
        Inr (- 25200000000)"
    by (simp add: calendar_defs)
  have h6: "\<bar>- 25200000000\<bar> < US_PER_DAY" by (simp add: US_PER_DAY_def)
  from small_difference_observation [OF h1 h2 h3 h4 h5 h6]
  have c: "\<exists>s2. run_rows initial_state ([] @ [?r1, ?r2]) = Inr s2
         \<and> journey_time_diffs s2 = [((''X'', ''Y''), [- 1])]"
    by (simp add: mk_row_def)
  show ?thesis
    using h1 h2 h3 h4 h5 h6 c by (intro conjI)
qed

text \<open>
  C9 as stated fails: a second row twelve hours before the first, for the same patient,
  gives the observation -1, not 0.
\<close>

theorem negative_small_difference_counterexample:
  "PATIENT (mk_row ''P1'' ''B'' (naive_datetime 2020 1 1 0 0 0)) =
     PATIENT (mk_row ''P1'' ''A'' (naive_datetime 2020 1 1 12 0 0))
   \<and> dt_sub (naive_datetime 2020 1 1 0 0 0) (naive_datetime 2020 1 1 12 0 0) =
       Inr (- 43200000000)
   \<and> \<bar>- 43200000000\<bar> < US_PER_DAY
   \<and> process_conditions_data
       [mk_row ''P1'' ''A'' (naive_datetime 2020 1 1 12 0 0),
        mk_row ''P1'' ''B'' (naive_datetime 2020 1 1 0 0 0)] = Inr [((''A'', ''B''), [- 1])]
   \<and> process_conditions_data
       [mk_row ''P1'' ''A'' (naive_datetime 2020 1 1 12 0 0),
        mk_row ''P1'' ''B'' (naive_datetime 2020 1 1 0 0 0)] \<noteq> Inr [((''A'', ''B''), [0])]"
  by (simp add: extractor_defs calendar_defs)

section \<open>The aggregator\<close>

lemma dict_set_fresh: "k \<notin> fst ` set m \<Longrightarrow> dict_set k v m = m @ [(k, v)]"
  by (induction m) auto

lemma fold_dict_set_distinct:
  assumes "distinct (map fst xs)" and "fst ` set xs \<inter> fst ` set acc = {}"
  shows "fold (\<lambda>(k, v) acc. dict_set k (f v) acc) xs acc = acc @ map (\<lambda>(k, v). (k, f v)) xs"
  using assms
proof (induction xs arbitrary: acc)
  case Nil
  then show ?case by simp
next
  case (Cons x xs)
  obtain k v where x: "x = (k, v)" by (cases x)
  from Cons.prems x have fresh: "k \<notin> fst ` set acc" by auto
  have step: "dict_set k (f v) acc = acc @ [(k, f v)]"
    using fresh by (rule dict_set_fresh)
  from Cons.prems x have d: "distinct (map fst xs)" and
    disj: "fst ` set xs \<inter> fst ` set (acc @ [(k, f v)]) = {}"
    by (auto simp: image_iff)
  show ?case
    using Cons.IH [OF d disj] by (simp add: x step)
qed

lemma calculate_map:
  "distinct (map fst jtd) \<Longrightarrow>
     calculate_total_and_average_time jtd = map (\<lambda>(k, tds). (k, stats_of tds)) jtd"
  unfolding calculate_total_and_average_time_def
  using fold_dict_set_distinct [of jtd "[]" stats_of] by simp

lemma map_of_calculate:
  "distinct (map fst jtd) \<Longrightarrow>
     map_of (calculate_total_and_average_time jtd) k = map_option stats_of (map_of jtd k)"
  by (simp add: calculate_map map_of_map)

lemma keys_dict_set:
  "map fst (dict_set k v m) = (if k \<in> fst ` set m then map fst m else map fst m @ [k])"
  by (induction m) (force split: if_splits)+

lemma map_of_dict_set_same: "map_of (dict_set k v m) k = Some v"
  by (induction m) auto

lemma total_time_stats_of: "total_time (stats_of tds) = sum_list tds"
  by (simp add: stats_of_def Let_def)


lemma sum_list_permutation: "mset xs = mset ys \<Longrightarrow> sum_list xs = sum_list (ys :: int list)"
  by (metis sum_mset_sum_list)

text \<open>
  C4.  For every key of the aggregator's output (on a dictionary, whose keys are
  distinct), the key is one of the input, and \<open>total\<close> is the exact integer sum of the
  observations stored under it; replacing that list by any permutation of it gives the
  same total under the key.
\<close>

theorem total_is_sum_of_observations:
  assumes "distinct (map fst jtd)"
    and "map_of (calculate_total_and_average_time jtd) k = Some st"
  shows "\<exists>tds. map_of jtd k = Some tds \<and> total_time st = sum_list tds
      \<and> (\<forall>tds'. mset tds' = mset tds \<longrightarrow>
           (\<exists>st'. map_of (calculate_total_and_average_time (dict_set k tds' jtd)) k = Some st'
              \<and> total_time st' = total_time st))"
proof -
  from assms(2) have "map_option stats_of (map_of jtd k) = Some st"
    by (simp only: map_of_calculate [OF assms(1)])
  then obtain tds where tds: "map_of jtd k = Some tds" "st = stats_of tds"
    by (cases "map_of jtd k") simp_all
  from tds(1) have "(k, tds) \<in> set jtd" by (rule map_of_SomeD)
  then have k: "k \<in> fst ` set jtd" by (rule image_eqI [rotated]) simp
  have perm: "\<exists>st'. map_of (calculate_total_and_average_time (dict_set k tds' jtd)) k = Some st'
              \<and> total_time st' = total_time st"
    if "mset tds' = mset tds" for tds'
  proof -
    have "distinct (map fst (dict_set k tds' jtd))"
      using assms(1) k by (simp only: keys_dict_set if_True)
    then have "map_of (calculate_total_and_average_time (dict_set k tds' jtd)) k =
        map_option stats_of (map_of (dict_set k tds' jtd) k)"
      by (rule map_of_calculate)
    then have "map_of (calculate_total_and_average_time (dict_set k tds' jtd)) k =
        Some (stats_of tds')"
      by (simp only: map_of_dict_set_same option.map)
    moreover have "total_time (stats_of tds') = total_time st"
      using sum_list_permutation [OF that] by (simp only: tds(2) total_time_stats_of)
    ultimately show ?thesis by blast
  qed
  have "total_time st = sum_list tds" by (simp only: tds(2) total_time_stats_of)
  with tds(1) perm show ?thesis by blast
qed

theorem total_is_sum_of_observations_witness:
  "(distinct (map fst [((''A'', ''B''), [4, - 2, 7 :: int]), ((''B'', ''A''), [1])])
    \<and> map_of (calculate_total_and_average_time
               [((''A'', ''B''), [4, - 2, 7]), ((''B'', ''A''), [1])]) (''A'', ''B'') =
        Some \<lparr>average_time = 3, total_time = 9\<rparr>)
   \<and> map_of [((''A'', ''B''), [4, - 2, 7 :: int]), ((''B'', ''A''), [1])] (''A'', ''B'') =
       Some [4, - 2, 7]
   \<and> total_time \<lparr>average_time = 3, total_time = 9\<rparr> = sum_list [4, - 2, 7]
   \<and> mset [7, 4, - 2 :: int] = mset [4, - 2, 7]
   \<and> (\<exists>st'. map_of (calculate_total_and_average_time
                (dict_set (''A'', ''B'') [7, 4, - 2]
                   [((''A'', ''B''), [4, - 2, 7]), ((''B'', ''A''), [1])])) (''A'', ''B'') = Some st'
         \<and> total_time st' = total_time \<lparr>average_time = 3, total_time = 9\<rparr>)"
proof -
  let ?jtd = "[((''A'', ''B''), [4, - 2, 7 :: int]), ((''B'', ''A''), [1])]"
  let ?st = "\<lparr>average_time = 3, total_time = 9\<rparr>"
  have h1: "distinct (map fst ?jtd)" by simp
  have h2: "map_of (calculate_total_and_average_time ?jtd) (''A'', ''B'') = Some ?st"
    by (simp add: calculate_total_and_average_time_def stats_of_def Let_def)
  have m: "map_of ?jtd (''A'', ''B'') = Some [4, - 2, 7]" by simp
  have p: "mset [7, 4, - 2 :: int] = mset [4, - 2, 7]" by (simp add: add_mset_commute)
  from total_is_sum_of_observations [OF h1 h2] m
  have c: "total_time ?st = sum_list [4, - 2, 7]"
    and d: "\<forall>tds'. mset tds' = mset [4, - 2, 7 :: int] \<longrightarrow>
           (\<exists>st'. map_of (calculate_total_and_average_time (dict_set (''A'', ''B'') tds' ?jtd))
                    (''A'', ''B'') = Some st'
              \<and> total_time st' = total_time ?st)"
    by auto
  from d p have e: "\<exists>st'. map_of (calculate_total_and_average_time
        (dict_set (''A'', ''B'') [7, 4, - 2] ?jtd)) (''A'', ''B'') = Some st'
         \<and> total_time st' = total_time ?st"
    by blast
  show ?thesis using h1 h2 m c p e by (intro conjI)
qed







section \<open>The builder: one link, and the whole loop\<close>

lemma index_of_append: "c \<in> set xs \<Longrightarrow> index_of c (xs @ ys) = index_of c xs"
  by (induction xs) auto

lemma index_of_fresh: "c \<notin> set xs \<Longrightarrow> index_of c (xs @ c # ys) = length xs"
  by (induction xs) auto

lemma index_of_less: "c \<in> set xs \<Longrightarrow> index_of c xs < length xs"
  by (induction xs) auto

lemma nth_index_of: "c \<in> set xs \<Longrightarrow> xs ! index_of c xs = c"
  by (induction xs) auto

lemma set_first_seen: "set (first_seen xs) = set xs"
  by (induction xs) auto

lemma distinct_first_seen: "distinct (first_seen xs)"
  by (induction xs) (auto simp: set_first_seen)

lemma set_register: "set (register c ls) = insert c (set ls)"
  by (auto simp: register_def)

lemma register_filter:
  "register c ls @ filter (\<lambda>y. y \<notin> set (register c ls)) xs =
     ls @ filter (\<lambda>y. y \<notin> set ls) (c # filter (\<lambda>y. y \<noteq> c) xs)"
proof (cases "c \<in> set ls")
  case True
  then have "filter (\<lambda>y. y \<notin> set ls) (filter (\<lambda>y. y \<noteq> c) xs) = filter (\<lambda>y. y \<notin> set ls) xs"
    by (auto intro: filter_cong)
  with True show ?thesis by (simp add: register_def)
next
  case False
  have "filter (\<lambda>y. y \<notin> set ls) (filter (\<lambda>y. y \<noteq> c) xs) =
        filter (\<lambda>y. y \<noteq> c \<and> y \<notin> set ls) xs"
    by (simp add: conj_commute)
  with False show ?thesis by (simp add: register_def)
qed

lemma register_label_ok:
  assumes "label_map g = label_map_of (labels g)"
  shows "register_label c g =
           g\<lparr>labels := register c (labels g),
             label_map := label_map_of (register c (labels g))\<rparr>"
proof (cases "c \<in> set (labels g)")
  case True
  then show ?thesis
    using assms by (simp add: register_label_def register_def label_map_of_def dom_def)
next
  case False
  have "(label_map_of (labels g))(c \<mapsto> length (labels g)) = label_map_of (labels g @ [c])"
    using False
    by (auto simp: label_map_of_def fun_eq_iff index_of_append index_of_fresh)
  with False show ?thesis
    using assms by (simp add: register_label_def register_def label_map_of_def dom_def)
qed

lemma getitem_label_map_of:
  "c \<in> set ls \<Longrightarrow> getitem (label_map_of ls) c = Inr (index_of c ls)"
  by (simp add: getitem_def label_map_of_def)

lemma add_link_ok:
  assumes "label_map g = label_map_of (labels g)"
  shows "add_link i ((from_cond, to_cond), data) g =
     Inr (g\<lparr>labels := register to_cond (register from_cond (labels g)),
            label_map := label_map_of (register to_cond (register from_cond (labels g))),
            source := source g @
              [index_of from_cond (register to_cond (register from_cond (labels g)))],
            target := target g @
              [index_of to_cond (register to_cond (register from_cond (labels g)))],
            link_value := link_value g @ [total_time data],
            colors := colors g @ [color_palette ! (i mod length color_palette)]\<rparr>)"
proof -
  let ?g1 = "g\<lparr>labels := register from_cond (labels g),
               label_map := label_map_of (register from_cond (labels g))\<rparr>"
  let ?L = "register to_cond (register from_cond (labels g))"
  let ?g2 = "g\<lparr>labels := ?L, label_map := label_map_of ?L\<rparr>"
  have s1: "register_label from_cond g = ?g1"
    using assms by (rule register_label_ok)
  have "register_label to_cond ?g1 =
      ?g1\<lparr>labels := register to_cond (labels ?g1),
            label_map := label_map_of (register to_cond (labels ?g1))\<rparr>"
    by (rule register_label_ok) simp
  then have s2: "register_label to_cond ?g1 = ?g2" by simp
  have f: "fold register_label [from_cond, to_cond] g = ?g2"
    by (simp add: s1 s2)
  have inL: "from_cond \<in> set ?L" "to_cond \<in> set ?L"
    by (simp_all add: set_register)
  have "add_link i ((from_cond, to_cond), data) g =
      (case getitem (label_map ?g2) from_cond of
         Inl e \<Rightarrow> Inl e
       | Inr src \<Rightarrow>
           (case getitem (label_map ?g2) to_cond of
              Inl e \<Rightarrow> Inl e
            | Inr tgt \<Rightarrow>
                Inr (?g2\<lparr>source := source ?g2 @ [src], target := target ?g2 @ [tgt],
                        link_value := link_value ?g2 @ [total_time data],
                        colors := colors ?g2 @
                          [color_palette ! (i mod length color_palette)]\<rparr>)))"
    by (simp only: add_link_def prod.case f Let_def)
  also have "\<dots> = Inr (?g2\<lparr>source := source ?g2 @ [index_of from_cond ?L],
                        target := target ?g2 @ [index_of to_cond ?L],
                        link_value := link_value ?g2 @ [total_time data],
                        colors := colors ?g2 @
                          [color_palette ! (i mod length color_palette)]\<rparr>)"
    using getitem_label_map_of [OF inL(1)] getitem_label_map_of [OF inL(2)] by simp
  finally show ?thesis by simp
qed

lemma endpoints_Cons:
  "endpoints (((from_cond, to_cond), data) # items) = from_cond # to_cond # endpoints items"
  by (simp add: endpoints_def)

lemma register_twice_filter:
  "register t (register f ls) @ filter (\<lambda>y. y \<notin> set (register t (register f ls))) (first_seen xs) =
     ls @ filter (\<lambda>y. y \<notin> set ls) (first_seen (f # t # xs))"
proof -
  have "register t (register f ls) @
          filter (\<lambda>y. y \<notin> set (register t (register f ls))) (first_seen xs) =
        register f ls @
          filter (\<lambda>y. y \<notin> set (register f ls)) (t # filter (\<lambda>y. y \<noteq> t) (first_seen xs))"
    by (rule register_filter)
  also have "\<dots> = ls @ filter (\<lambda>y. y \<notin> set ls)
      (f # filter (\<lambda>y. y \<noteq> f) (t # filter (\<lambda>y. y \<noteq> t) (first_seen xs)))"
    by (rule register_filter)
  finally show ?thesis by simp
qed

lemma sankey_loop_ok:
  assumes "label_map g = label_map_of (labels g)"
  shows "\<exists>g'. sankey_loop i items g = Inr g'
     \<and> labels g' = labels g @ filter (\<lambda>y. y \<notin> set (labels g)) (first_seen (endpoints items))
     \<and> label_map g' = label_map_of (labels g')
     \<and> source g' = source g @ map (\<lambda>((f, t), d). index_of f (labels g')) items
     \<and> target g' = target g @ map (\<lambda>((f, t), d). index_of t (labels g')) items
     \<and> link_value g' = link_value g @ map (\<lambda>(k, d). total_time d) items
     \<and> colors g' = colors g @
         map (\<lambda>j. color_palette ! (j mod length color_palette)) [i ..< i + length items]"
  using assms
proof (induction items arbitrary: i g)
  case Nil
  then show ?case by (simp add: endpoints_def)
next
  case (Cons item items)
  obtain f t d where item: "item = ((f, t), d)" by (cases item) auto
  let ?L1 = "register t (register f (labels g))"
  let ?g1 = "g\<lparr>labels := ?L1, label_map := label_map_of ?L1,
              source := source g @ [index_of f ?L1],
              target := target g @ [index_of t ?L1],
              link_value := link_value g @ [total_time d],
              colors := colors g @ [color_palette ! (i mod length color_palette)]\<rparr>"
  have step: "add_link i item g = Inr ?g1"
    unfolding item using Cons.prems by (rule add_link_ok)
  have inv1: "label_map ?g1 = label_map_of (labels ?g1)" by simp
  from Cons.IH [OF inv1, of "Suc i"] obtain g' where g':
    "sankey_loop (Suc i) items ?g1 = Inr g'"
    "labels g' = ?L1 @ filter (\<lambda>y. y \<notin> set ?L1) (first_seen (endpoints items))"
    "label_map g' = label_map_of (labels g')"
    "source g' = (source g @ [index_of f ?L1]) @ map (\<lambda>((f, t), d). index_of f (labels g')) items"
    "target g' = (target g @ [index_of t ?L1]) @ map (\<lambda>((f, t), d). index_of t (labels g')) items"
    "link_value g' = (link_value g @ [total_time d]) @ map (\<lambda>(k, d). total_time d) items"
    "colors g' = (colors g @ [color_palette ! (i mod length color_palette)]) @
         map (\<lambda>j. color_palette ! (j mod length color_palette)) [Suc i ..< Suc i + length items]"
    by auto
  have run: "sankey_loop i (item # items) g = Inr g'"
    by (simp add: step g'(1))
  have lab: "labels g' =
      labels g @ filter (\<lambda>y. y \<notin> set (labels g)) (first_seen (endpoints (item # items)))"
    unfolding g'(2) item endpoints_Cons by (rule register_twice_filter)
  have inL: "f \<in> set ?L1" "t \<in> set ?L1" by (simp_all add: set_register)
  have ixf: "index_of f ?L1 = index_of f (labels g')"
    unfolding g'(2) using inL(1) by (rule index_of_append [symmetric])
  have ixt: "index_of t ?L1 = index_of t (labels g')"
    unfolding g'(2) using inL(2) by (rule index_of_append [symmetric])
  have src: "source g' = source g @ map (\<lambda>((f, t), d). index_of f (labels g')) (item # items)"
    by (simp add: g'(4) item ixf)
  have tgt: "target g' = target g @ map (\<lambda>((f, t), d). index_of t (labels g')) (item # items)"
    by (simp add: g'(5) item ixt)
  have val: "link_value g' = link_value g @ map (\<lambda>(k, d). total_time d) (item # items)"
    by (simp add: g'(6) item)
  have "[i ..< i + length (item # items)] = i # [Suc i ..< Suc i + length items]"
    using upt_conv_Cons [of i "Suc i + length items"] by simp
  then have col: "colors g' = colors g @
         map (\<lambda>j. color_palette ! (j mod length color_palette)) [i ..< i + length (item # items)]"
    by (simp only: g'(7)) simp
  from run lab g'(3) src tgt val col show ?case by blast
qed

lemma create_sankey_diagram_ok:
  "\<exists>g. create_sankey_diagram journey_data = Inr g
     \<and> labels g = first_seen (endpoints journey_data)
     \<and> label_map g = label_map_of (labels g)
     \<and> source g = map (\<lambda>((f, t), d). index_of f (labels g)) journey_data
     \<and> target g = map (\<lambda>((f, t), d). index_of t (labels g)) journey_data
     \<and> link_value g = map (\<lambda>(k, d). total_time d) journey_data
     \<and> colors g =
         map (\<lambda>j. color_palette ! (j mod length color_palette)) [0 ..< length journey_data]"
proof -
  have "label_map empty_sankey = label_map_of (labels empty_sankey)"
    by (simp add: empty_sankey_def label_map_of_def)
  from sankey_loop_ok [OF this, of 0 journey_data]
  show ?thesis
    by (simp add: create_sankey_diagram_def empty_sankey_def)
qed

section \<open>The label registry\<close>

lemma count_list_distinct:
  "distinct xs \<Longrightarrow> count_list xs c = (if c \<in> set xs then 1 else 0)"
  by (induction xs) auto

lemma index_of_filter_order:
  assumes "a \<in> set ys" "b \<in> set ys" "a \<noteq> x" "b \<noteq> x"
  shows "(index_of a (filter (\<lambda>y. y \<noteq> x) ys) < index_of b (filter (\<lambda>y. y \<noteq> x) ys))
       = (index_of a ys < index_of b ys)"
  using assms by (induction ys) auto

lemma index_of_first_seen_order:
  assumes "a \<in> set xs" "b \<in> set xs"
  shows "(index_of a (first_seen xs) < index_of b (first_seen xs))
       = (index_of a xs < index_of b xs)"
  using assms
proof (induction xs)
  case Nil
  then show ?case by simp
next
  case (Cons x xs)
  show ?case
  proof (cases "a = x \<or> b = x")
    case True
    then show ?thesis by auto
  next
    case False
    with Cons.prems have ab: "a \<in> set xs" "b \<in> set xs" "a \<noteq> x" "b \<noteq> x" by auto
    have "(index_of a (filter (\<lambda>y. y \<noteq> x) (first_seen xs))
            < index_of b (filter (\<lambda>y. y \<noteq> x) (first_seen xs)))
        = (index_of a (first_seen xs) < index_of b (first_seen xs))"
      using ab by (intro index_of_filter_order) (simp_all add: set_first_seen)
    with Cons.IH [OF ab(1,2)] ab show ?thesis by simp
  qed
qed

text \<open>
  C6.  For every aggregated transition map the builder returns a model whose label
  list holds each description that is an endpoint of a key exactly once and nothing
  else, so its length is the number of distinct endpoint descriptions.  The labels
  stand in the order in which the descriptions are first seen when the keys are read in
  map order, the origin of a key before its destination, and the index that the label
  dictionary gives a description is its position in that list.
\<close>

theorem labels_are_first_seen_endpoints:
  "\<exists>g. create_sankey_diagram journey_data = Inr g
     \<and> labels g = first_seen (endpoints journey_data)
     \<and> distinct (labels g)
     \<and> set (labels g) = set (endpoints journey_data)
     \<and> (\<forall>c. count_list (labels g) c = (if c \<in> set (endpoints journey_data) then 1 else 0))
     \<and> length (labels g) = card (set (endpoints journey_data))
     \<and> (\<forall>c. label_map g c =
            (if c \<in> set (labels g) then Some (index_of c (labels g)) else None))
     \<and> (\<forall>a \<in> set (endpoints journey_data). \<forall>b \<in> set (endpoints journey_data).
           (index_of a (labels g) < index_of b (labels g))
           = (index_of a (endpoints journey_data) < index_of b (endpoints journey_data)))"
proof -
  from create_sankey_diagram_ok [of journey_data] obtain g where g:
    "create_sankey_diagram journey_data = Inr g"
    "labels g = first_seen (endpoints journey_data)"
    "label_map g = label_map_of (labels g)"
    by blast
  have d: "distinct (labels g)" by (simp only: g(2) distinct_first_seen)
  have s: "set (labels g) = set (endpoints journey_data)" by (simp only: g(2) set_first_seen)
  have c: "\<forall>c. count_list (labels g) c = (if c \<in> set (endpoints journey_data) then 1 else 0)"
    using count_list_distinct [OF d] by (simp add: s)
  have l: "length (labels g) = card (set (endpoints journey_data))"
    using distinct_card [OF d] by (simp add: s)
  have m: "\<forall>c. label_map g c =
            (if c \<in> set (labels g) then Some (index_of c (labels g)) else None)"
    by (simp add: g(3) label_map_of_def)
  have ord: "\<forall>a \<in> set (endpoints journey_data). \<forall>b \<in> set (endpoints journey_data).
           (index_of a (labels g) < index_of b (labels g))
           = (index_of a (endpoints journey_data) < index_of b (endpoints journey_data))"
    by (simp only: g(2)) (intro ballI index_of_first_seen_order)
  from g(1,2) d s c l m ord show ?thesis by blast
qed

theorem labels_are_first_seen_endpoints_witness:
  "endpoints [((''B'', ''A''), \<lparr>average_time = 2, total_time = 4\<rparr>),
              ((''A'', ''C''), \<lparr>average_time = 1, total_time = 1\<rparr>),
              ((''C'', ''B''), \<lparr>average_time = 5, total_time = 5\<rparr>)]
     = [''B'', ''A'', ''A'', ''C'', ''C'', ''B'']
   \<and> (\<exists>g. create_sankey_diagram
              [((''B'', ''A''), \<lparr>average_time = 2, total_time = 4\<rparr>),
               ((''A'', ''C''), \<lparr>average_time = 1, total_time = 1\<rparr>),
               ((''C'', ''B''), \<lparr>average_time = 5, total_time = 5\<rparr>)] = Inr g
         \<and> labels g = [''B'', ''A'', ''C'']
         \<and> length (labels g) = 3
         \<and> label_map g ''B'' = Some 0 \<and> label_map g ''A'' = Some 1
         \<and> label_map g ''C'' = Some 2 \<and> label_map g ''D'' = None
         \<and> index_of ''A'' (labels g) < index_of ''C'' (labels g))"
proof -
  let ?jd = "[((''B'', ''A''), \<lparr>average_time = 2, total_time = 4\<rparr>),
              ((''A'', ''C''), \<lparr>average_time = 1, total_time = 1\<rparr>),
              ((''C'', ''B''), \<lparr>average_time = 5, total_time = 5\<rparr>)]"
  have e: "endpoints ?jd = [''B'', ''A'', ''A'', ''C'', ''C'', ''B'']"
    by (simp add: endpoints_def)
  have f: "first_seen [''B'', ''A'', ''A'', ''C'', ''C'', ''B''] = [''B'', ''A'', ''C'']"
    by simp
  from labels_are_first_seen_endpoints [of ?jd] obtain g where g:
    "create_sankey_diagram ?jd = Inr g"
    "labels g = first_seen (endpoints ?jd)"
    "\<forall>c. label_map g c = (if c \<in> set (labels g) then Some (index_of c (labels g)) else None)"
    by blast
  have l: "labels g = [''B'', ''A'', ''C'']" by (simp only: g(2) e f)
  have "length (labels g) = 3"
    "label_map g ''B'' = Some 0" "label_map g ''A'' = Some 1"
    "label_map g ''C'' = Some 2" "label_map g ''D'' = None"
    "index_of ''A'' (labels g) < index_of ''C'' (labels g)"
    using g(3) by (simp_all add: l)
  with g(1) l e show ?thesis by blast
qed

section \<open>The colors\<close>

lemma length_color_palette: "length color_palette = 7"
  by (simp add: color_palette_def)

lemma length_links:
  "length (source g) = n \<Longrightarrow> length (target g) = n \<Longrightarrow> length (link_value g) = n \<Longrightarrow>
     length (links g) = n"
  by (simp add: links_def)

text \<open>
  C7.  The palette has seven colors, and for every aggregated transition map the
  builder returns a model with one color per link, the color of the link at position
  \<open>i\<close> being the palette entry at index \<open>i mod 7\<close>.  The colors depend on the number
  of links only: any other map with as many keys gets the same list of colors,
  whatever its condition pairs and statistics are.
\<close>

theorem colors_cycle_through_palette:
  "length color_palette = 7
   \<and> (\<exists>g. create_sankey_diagram journey_data = Inr g
        \<and> length (links g) = length journey_data
        \<and> length (colors g) = length journey_data
        \<and> (\<forall>i < length journey_data. colors g ! i = color_palette ! (i mod 7))
        \<and> (\<forall>journey_data'. length journey_data' = length journey_data \<longrightarrow>
              (\<exists>g'. create_sankey_diagram journey_data' = Inr g' \<and> colors g' = colors g)))"
proof -
  from create_sankey_diagram_ok [of journey_data] obtain g where g:
    "create_sankey_diagram journey_data = Inr g"
    "source g = map (\<lambda>((f, t), d). index_of f (labels g)) journey_data"
    "target g = map (\<lambda>((f, t), d). index_of t (labels g)) journey_data"
    "link_value g = map (\<lambda>(k, d). total_time d) journey_data"
    "colors g = map (\<lambda>j. color_palette ! (j mod length color_palette)) [0 ..< length journey_data]"
    by blast
  have n: "length (links g) = length journey_data"
    by (rule length_links) (simp_all add: g(2-4))
  have c: "length (colors g) = length journey_data" by (simp add: g(5))
  have at: "\<forall>i < length journey_data. colors g ! i = color_palette ! (i mod 7)"
    by (simp add: g(5) length_color_palette)
  have same: "\<exists>g'. create_sankey_diagram journey_data' = Inr g' \<and> colors g' = colors g"
    if "length journey_data' = length journey_data" for journey_data'
  proof -
    from create_sankey_diagram_ok [of journey_data'] obtain g' where
      "create_sankey_diagram journey_data' = Inr g'"
      "colors g' =
         map (\<lambda>j. color_palette ! (j mod length color_palette)) [0 ..< length journey_data']"
      by blast
    with that g(5) show ?thesis by simp
  qed
  from g(1) n c at same length_color_palette show ?thesis by blast
qed

theorem colors_cycle_through_palette_witness:
  "\<exists>g. create_sankey_diagram
          (map (\<lambda>c. ((c, ''Z''), \<lparr>average_time = 1, total_time = 1\<rparr>))
             [''A'', ''B'', ''C'', ''D'', ''E'', ''F'', ''G'', ''H'', ''I'']) = Inr g
      \<and> length (colors g) = 9
      \<and> colors g ! 0 = ''#0077BB'' \<and> colors g ! 6 = ''#BBBBBB''
      \<and> colors g ! 7 = ''#0077BB'' \<and> colors g ! 8 = ''#33BBEE''
      \<and> (\<exists>g'. create_sankey_diagram
            (replicate 9 ((''A'', ''B''), \<lparr>average_time = 0, total_time = 0\<rparr>)) = Inr g'
            \<and> colors g' = colors g)"
proof -
  let ?jd = "map (\<lambda>c. ((c, ''Z''), \<lparr>average_time = 1, total_time = 1\<rparr>))
             [''A'', ''B'', ''C'', ''D'', ''E'', ''F'', ''G'', ''H'', ''I'']"
  let ?jd' = "replicate 9 ((''A'', ''B''), \<lparr>average_time = 0, total_time = 0\<rparr>)"
  have len: "length ?jd = 9" "length ?jd' = length ?jd" by simp_all
  from colors_cycle_through_palette [of ?jd] obtain g where g:
    "create_sankey_diagram ?jd = Inr g"
    "length (colors g) = length ?jd"
    "\<forall>i < length ?jd. colors g ! i = color_palette ! (i mod 7)"
    "\<forall>journey_data'. length journey_data' = length ?jd \<longrightarrow>
        (\<exists>g'. create_sankey_diagram journey_data' = Inr g' \<and> colors g' = colors g)"
    by blast
  have l: "length (colors g) = 9" using g(2) by simp
  have c: "colors g ! 0 = ''#0077BB''" "colors g ! 6 = ''#BBBBBB''"
    "colors g ! 7 = ''#0077BB''" "colors g ! 8 = ''#33BBEE''"
    using g(3) by (simp_all add: color_palette_def)
  from g(4) len(2) have s: "\<exists>g'. create_sankey_diagram ?jd' = Inr g' \<and> colors g' = colors g"
    by blast
  from g(1) l c s show ?thesis by blast
qed

section \<open>The links\<close>

lemma zip3_map:
  "zip (map f xs) (zip (map g xs) (map h xs)) = map (\<lambda>x. (f x, g x, h x)) xs"
  by (induction xs) auto

text \<open>
  C10.  For every aggregated transition map the builder returns a model with exactly
  one link per key, in the order of the keys: the link at position \<open>i\<close> has as source
  and target the positions of the origin and destination of the \<open>i\<close>-th key in the label
  list and as value the total of that key.  Both indices are below the length of the
  label list, so every lookup of a label by them is in bounds.
\<close>

theorem links_follow_keys_within_bounds:
  "\<exists>g. create_sankey_diagram journey_data = Inr g
     \<and> length (links g) = length journey_data
     \<and> links g =
         map (\<lambda>((f, t), d). (index_of f (labels g), index_of t (labels g), total_time d))
           journey_data
     \<and> (\<forall>i < length journey_data.
           fst (links g ! i) < length (labels g)
           \<and> fst (snd (links g ! i)) < length (labels g)
           \<and> labels g ! fst (links g ! i) = fst (fst (journey_data ! i))
           \<and> labels g ! fst (snd (links g ! i)) = snd (fst (journey_data ! i))
           \<and> snd (snd (links g ! i)) = total_time (snd (journey_data ! i)))"
proof -
  from create_sankey_diagram_ok [of journey_data] obtain g where g:
    "create_sankey_diagram journey_data = Inr g"
    "labels g = first_seen (endpoints journey_data)"
    "source g = map (\<lambda>((f, t), d). index_of f (labels g)) journey_data"
    "target g = map (\<lambda>((f, t), d). index_of t (labels g)) journey_data"
    "link_value g = map (\<lambda>(k, d). total_time d) journey_data"
    by blast
  have l: "links g =
      map (\<lambda>((f, t), d). (index_of f (labels g), index_of t (labels g), total_time d))
        journey_data"
    unfolding links_def g(3-5) by (simp only: zip3_map) (simp add: case_prod_unfold)
  have n: "length (links g) = length journey_data" by (simp add: l)
  have at: "fst (links g ! i) < length (labels g)
           \<and> fst (snd (links g ! i)) < length (labels g)
           \<and> labels g ! fst (links g ! i) = fst (fst (journey_data ! i))
           \<and> labels g ! fst (snd (links g ! i)) = snd (fst (journey_data ! i))
           \<and> snd (snd (links g ! i)) = total_time (snd (journey_data ! i))"
    if i: "i < length journey_data" for i
  proof -
    obtain f t d where item: "journey_data ! i = ((f, t), d)"
      by (cases "journey_data ! i") auto
    from i have mem: "((f, t), d) \<in> set journey_data"
      unfolding item [symmetric] by (rule nth_mem)
    then have "f \<in> set (endpoints journey_data)" "t \<in> set (endpoints journey_data)"
      by (force simp: endpoints_def)+
    then have inL: "f \<in> set (labels g)" "t \<in> set (labels g)"
      by (simp_all add: g(2) set_first_seen)
    have li: "links g ! i = (index_of f (labels g), index_of t (labels g), total_time d)"
      using i by (simp add: l item)
    show ?thesis
      using index_of_less [OF inL(1)] index_of_less [OF inL(2)]
        nth_index_of [OF inL(1)] nth_index_of [OF inL(2)]
      by (simp add: li item)
  qed
  from g(1) n l at show ?thesis by blast
qed

theorem links_follow_keys_within_bounds_witness:
  "\<exists>g. create_sankey_diagram
          [((''B'', ''A''), \<lparr>average_time = 2, total_time = 4\<rparr>),
           ((''A'', ''C''), \<lparr>average_time = 1, total_time = 1\<rparr>),
           ((''C'', ''B''), \<lparr>average_time = 5, total_time = 5\<rparr>)] = Inr g
      \<and> labels g = [''B'', ''A'', ''C'']
      \<and> links g = [(0, 1, 4), (1, 2, 1), (2, 0, 5)]
      \<and> fst (links g ! 2) < length (labels g)
      \<and> fst (snd (links g ! 2)) < length (labels g)
      \<and> labels g ! fst (links g ! 2) = ''C''
      \<and> labels g ! fst (snd (links g ! 2)) = ''B''"
proof -
  let ?jd = "[((''B'', ''A''), \<lparr>average_time = 2, total_time = 4\<rparr>),
           ((''A'', ''C''), \<lparr>average_time = 1, total_time = 1\<rparr>),
           ((''C'', ''B''), \<lparr>average_time = 5, total_time = 5\<rparr>)]"
  from links_follow_keys_within_bounds [of ?jd] obtain g where g:
    "create_sankey_diagram ?jd = Inr g"
    "links g =
       map (\<lambda>((f, t), d). (index_of f (labels g), index_of t (labels g), total_time d)) ?jd"
    "\<forall>i < length ?jd.
           fst (links g ! i) < length (labels g)
           \<and> fst (snd (links g ! i)) < length (labels g)
           \<and> labels g ! fst (links g ! i) = fst (fst (?jd ! i))
           \<and> labels g ! fst (snd (links g ! i)) = snd (fst (?jd ! i))
           \<and> snd (snd (links g ! i)) = total_time (snd (?jd ! i))"
    by blast
  have "\<exists>h. create_sankey_diagram ?jd = Inr h \<and> labels h = [''B'', ''A'', ''C'']"
    by (simp add: builder_defs)
  with g(1) have l: "labels g = [''B'', ''A'', ''C'']" by auto
  have k: "links g = [(0, 1, 4), (1, 2, 1), (2, 0, 5)]"
    by (simp add: g(2) l)
  from g(3) have "fst (links g ! 2) < length (labels g)
           \<and> fst (snd (links g ! 2)) < length (labels g)
           \<and> labels g ! fst (links g ! 2) = fst (fst (?jd ! 2))
           \<and> labels g ! fst (snd (links g ! 2)) = snd (fst (?jd ! 2))"
    by simp
  then have b: "fst (links g ! 2) < length (labels g)"
    "fst (snd (links g ! 2)) < length (labels g)"
    "labels g ! fst (links g ! 2) = ''C''"
    "labels g ! fst (snd (links g ! 2)) = ''B''"
    by simp_all
  from g(1) l k b show ?thesis by blast
qed

end
